theory Spec2Isabelle
  imports Main "HOL-Library.Word"
begin

section \<open>Data model of MidiService.cpp\<close>

text \<open>
  A MIDI message is three bytes. The class \<open>MidiMessage\<close> is declared outside
  \<open>MidiService.cpp\<close>; only its three fields are used there.
\<close>

record MidiMessage =
  status :: "8 word"
  data1 :: "8 word"
  data2 :: "8 word"

text \<open>
  Modelled from the spec: the device classes \<open>MidiInDevice\<close> and \<open>MidiOutDevice\<close> are
  declared outside \<open>MidiService.cpp\<close>. The service only asks a device for its name, and
  calls \<open>Init\<close>, \<open>Start\<close>, \<open>Stop\<close>, \<open>Close\<close> and \<open>SendQueue\<close> on it. A device is its name
  together with the results its \<open>Init()\<close> and \<open>Start()\<close> return; every call made on a device
  is appended to the trace \<open>calls\<close> of the service state.
\<close>

record MidiDevice =
  GetName :: string
  InitResult :: bool
  StartResult :: bool

datatype call =
    InInit nat
  | InStart nat
  | InStop nat
  | InClose nat
  | OutInit nat
  | OutStart nat
  | OutStop nat
  | OutClose nat
  | SendQueue nat "MidiMessage list"
  | TraceLog string string

text \<open>
  The fields of the class. Devices are owned by the two lists; \<open>inDevice\<close> and
  \<open>outDevice\<close> are pointers into them (\<open>None\<close> is \<open>NULL\<close>, \<open>Some i\<close> points at the
  \<open>i\<close>-th element). \<open>queues\<close> is the array \<open>queues_[MIDI_MAX_BUFFERS]\<close>, each slot an
  ordered list of messages. The two cursors index that array: they are natural
  numbers, set to 0 by \<open>Start\<close> and kept below \<open>MIDI_MAX_BUFFERS\<close> by the \<open>%\<close> of every
  advance. \<open>tickToFlush\<close> and \<open>midiDelay\<close> are C \<open>int\<close>s (the only arithmetic on them is a
  decrement of a positive value, so no wrap-around can occur).

  Every member function is one atomic transition of this state: the code serialises
  the accesses to the slots with \<open>queueMutex_\<close>, and a run is a sequence of calls.
\<close>

record MidiService =
  outList :: "MidiDevice list"
  inList :: "MidiDevice list"
  inDevice :: "nat option"
  outDevice :: "nat option"
  sendSync :: bool
  queues :: "MidiMessage list list"
  midiDelay :: int
  deviceName :: string
  currentPlayQueue :: nat
  currentOutQueue :: nat
  tickToFlush :: int
  calls :: "call list"

text \<open>
  The macro \<open>MIDI_MAX_BUFFERS\<close> comes from the header, which is not part of the
  source at hand: it is the declared length of the array \<open>queues_\<close>, and the model
  reads it off the array. It is positive in any C++ program (an array has at least
  one element, and \<open>% 0\<close> is undefined): a statement that depends on which slot is
  reached assumes a ring that is not empty.
\<close>

definition MIDI_MAX_BUFFERS :: "MidiService \<Rightarrow> nat" where
  "MIDI_MAX_BUFFERS s = length (queues s)"

section \<open>The ring and the flush scheduler\<close>

definition Start :: "MidiService \<Rightarrow> MidiService" where
  "Start s = s\<lparr>currentPlayQueue := 0, currentOutQueue := 0\<rparr>"

definition stopOutDevice :: "MidiService \<Rightarrow> MidiService" where
  "stopOutDevice s =
     (case outDevice s of
        Some d \<Rightarrow> s\<lparr>calls := calls s @ [OutStop d, OutClose d], outDevice := None\<rparr>
      | None \<Rightarrow> s\<lparr>outDevice := None\<rparr>)"

definition Stop :: "MidiService \<Rightarrow> MidiService" where
  "Stop s = stopOutDevice s"

text \<open>
  Modelled from the spec: the list class \<open>T_SimpleList\<close> is declared outside
  \<open>MidiService.cpp\<close>. A queue slot is an ordered sequence: \<open>Insert\<close> appends (insertion
  order is preserved) and \<open>Empty\<close> removes every element.

  \<open>QueueMessage\<close> copies the three bytes into a new message and inserts it into the
  slot under the write cursor. Without an output device the message is dropped.
\<close>

definition QueueMessage :: "MidiMessage \<Rightarrow> MidiService \<Rightarrow> MidiService" where
  "QueueMessage m s =
     (case outDevice s of
        None \<Rightarrow> s
      | Some d \<Rightarrow>
          (let queue = queues s ! currentPlayQueue s;
               ms = \<lparr>status = status m, data1 = data1 m, data2 = data2 m\<rparr>
           in s\<lparr>queues := (queues s)[currentPlayQueue s := queue @ [ms]]\<rparr>))"

definition AdvancePlayQueue :: "MidiService \<Rightarrow> MidiService" where
  "AdvancePlayQueue s =
     (let p = (currentPlayQueue s + 1) mod MIDI_MAX_BUFFERS s
      in s\<lparr>currentPlayQueue := p, queues := (queues s)[p := []]\<rparr>)"

definition flushOutQueue :: "MidiService \<Rightarrow> MidiService" where
  "flushOutQueue s =
     (let out = (currentOutQueue s + 1) mod MIDI_MAX_BUFFERS s;
          flushQueue = queues s ! out;
          s1 = s\<lparr>currentOutQueue := out\<rparr>;
          s2 = (case outDevice s1 of
                  Some d \<Rightarrow> s1\<lparr>calls := calls s1 @ [SendQueue d flushQueue]\<rparr>
                | None \<Rightarrow> s1)
      in s2\<lparr>queues := (queues s2)[out := []]\<rparr>)"

definition onAudioTick :: "MidiService \<Rightarrow> MidiService" where
  "onAudioTick s =
     (if tickToFlush s > 0 then
        (let s1 = s\<lparr>tickToFlush := tickToFlush s - 1\<rparr>
         in if tickToFlush s1 = 0 then flushOutQueue s1 else s1)
      else s)"

definition Flush :: "MidiService \<Rightarrow> MidiService" where
  "Flush s =
     (let s1 = s\<lparr>tickToFlush := midiDelay s\<rparr>
      in if tickToFlush s1 = 0 then flushOutQueue s1 else s1)"

text \<open>\<open>ticks n\<close> is \<open>n\<close> consecutive audio ticks.\<close>

primrec ticks :: "nat \<Rightarrow> MidiService \<Rightarrow> MidiService" where
  "ticks 0 s = s"
| "ticks (Suc n) s = ticks n (onAudioTick s)"

text \<open>
  \<open>fires s\<close> is the condition under which \<open>onAudioTick\<close> reaches its call of
  \<open>flushOutQueue\<close> in state \<open>s\<close>: the countdown is positive and its decrement gives 0.
  \<open>drains n s\<close> counts the ticks, among \<open>n\<close> consecutive ones from \<open>s\<close>, that drain.
\<close>

definition fires :: "MidiService \<Rightarrow> bool" where
  "fires s = (tickToFlush s > 0 \<and> tickToFlush s - 1 = 0)"

primrec drains :: "nat \<Rightarrow> MidiService \<Rightarrow> nat" where
  "drains 0 s = 0"
| "drains (Suc n) s = (if fires s then 1 else 0) + drains n (onAudioTick s)"

section \<open>Construction and configuration\<close>

text \<open>
  \<open>Config::GetValue\<close> returns a C string, or \<open>NULL\<close> for an option that is not set:
  the configuration is a partial map from option names to strings.
\<close>

type_synonym Config = "string \<Rightarrow> string option"

text \<open>
  The C library's \<open>atoi\<close>, which is \<open>(int) strtol(str, NULL, 10)\<close>. \<open>decimal_value\<close> is
  the number the text denotes: skip leading white space, read an optional sign, then
  the longest run of decimal digits; 0 when there is no digit. \<open>strtol\<close> returns a
  \<open>long\<close> (64 bits) and saturates at the ends of its range; the conversion to \<open>int\<close>
  keeps the low 32 bits, read as a signed number. For a text whose number fits an
  \<open>int\<close> this is the number itself; outside that range the C standard leaves \<open>atoi\<close>
  undefined, and the model follows the GNU C library with a 64-bit \<open>long\<close>.
\<close>

definition isspace :: "char \<Rightarrow> bool" where
  "isspace c = (of_char c \<in> {32::nat, 9, 10, 11, 12, 13})"

definition isdigit :: "char \<Rightarrow> bool" where
  "isdigit c = (48 \<le> (of_char c :: nat) \<and> (of_char c :: nat) \<le> 57)"

definition digits :: "string \<Rightarrow> int" where
  "digits cs = foldl (\<lambda>acc c. acc * 10 + (int (of_char c) - 48)) 0 (takeWhile isdigit cs)"

definition decimal_value :: "string \<Rightarrow> int" where
  "decimal_value str =
     (case dropWhile isspace str of
        [] \<Rightarrow> 0
      | c # cs \<Rightarrow>
          if c = CHR ''-'' then - digits cs
          else if c = CHR ''+'' then digits cs
          else digits (c # cs))"

definition strtol :: "string \<Rightarrow> int" where
  "strtol str = max (- (2 ^ 63)) (min (2 ^ 63 - 1) (decimal_value str))"

definition int_of_long :: "int \<Rightarrow> int" where
  "int_of_long x = (x + 2 ^ 31) mod 2 ^ 32 - 2 ^ 31"

definition atoi :: "string \<Rightarrow> int" where
  "atoi str = int_of_long (strtol str)"

text \<open>
  The constructor. It creates \<open>MIDI_MAX_BUFFERS\<close> empty queues (the argument \<open>n\<close>),
  no devices and no bindings, and reads the two options. It does not initialise
  \<open>currentPlayQueue_\<close>, \<open>currentOutQueue_\<close> and \<open>tickToFlush_\<close>: their indeterminate
  initial values are the arguments \<open>p\<close>, \<open>out\<close> and \<open>t\<close>.
\<close>

definition MidiService_new :: "Config \<Rightarrow> nat \<Rightarrow> nat \<Rightarrow> nat \<Rightarrow> int \<Rightarrow> MidiService" where
  "MidiService_new config n p out t =
     \<lparr>outList = [], inList = [], inDevice = None, outDevice = None,
      sendSync = (case config ''MIDISENDSYNC'' of None \<Rightarrow> True | Some v \<Rightarrow> v = ''YES''),
      queues = replicate n [],
      midiDelay = (case config ''MIDIDELAY'' of None \<Rightarrow> 1 | Some delay \<Rightarrow> atoi delay),
      deviceName = [], currentPlayQueue = p, currentOutQueue = out, tickToFlush = t,
      calls = []\<rparr>"

text \<open>
  \<open>Init\<close> empties both device lists and lets \<open>buildDriverList\<close> fill them. That
  function is pure virtual (each platform supplies it): the devices it inserts are
  the arguments \<open>outs\<close> and \<open>ins\<close>. The input merger is not used by any other function
  of the file and is left out.
\<close>

definition Init :: "MidiDevice list \<Rightarrow> MidiDevice list \<Rightarrow> MidiService \<Rightarrow> MidiService" where
  "Init outs ins s = s\<lparr>outList := outs, inList := ins\<rparr>"

section \<open>Device lifecycle\<close>

text \<open>
  \<open>Close\<close> calls \<open>Stop()\<close> and then \<open>inDevice_->Stop()\<close> and \<open>inDevice_->Close()\<close>
  with no test of the pointer. Calling through \<open>NULL\<close> is the error branch.
\<close>

datatype error = NullDeviceDereference

definition Close :: "MidiService \<Rightarrow> error + MidiService" where
  "Close s =
     (let s1 = Stop s
      in case inDevice s1 of
           None \<Rightarrow> Inl NullDeviceDereference
         | Some i \<Rightarrow> Inr (s1\<lparr>calls := calls s1 @ [InStop i, InClose i]\<rparr>))"

text \<open>
  The loop of \<open>SelectDevice\<close> over the input devices. \<open>selectStep\<close> is the body of
  the loop for the item \<open>dev\<close> at position \<open>i\<close>. The loop has no \<open>break\<close>: every
  device whose name matches is visited.
\<close>

definition selectStep :: "nat \<Rightarrow> MidiDevice \<Rightarrow> MidiService \<Rightarrow> MidiService" where
  "selectStep i dev s =
     (if deviceName s = GetName dev then
        (let s1 = s\<lparr>calls := calls s @ [InInit i]\<rparr>
         in if InitResult dev then
              (let s2 = s1\<lparr>inDevice := Some i\<rparr>;
                   s3 = s2\<lparr>calls := calls s2 @ [InStart i]\<rparr>
               in if StartResult dev then
                    s3\<lparr>calls := calls s3 @
                      [TraceLog ''MIDI''
                         (''Controlling activated for MIDI interface '' @ GetName dev)]\<rparr>
                  else
                    s3\<lparr>calls := calls s3 @
                      [TraceLog ''MIDI''
                         (''Failed to start input for MIDI interface '' @ GetName dev),
                       InClose i]\<rparr>)
            else s1)
      else s)"

fun selectLoop :: "nat \<Rightarrow> MidiDevice list \<Rightarrow> MidiService \<Rightarrow> MidiService" where
  "selectLoop i [] s = s"
| "selectLoop i (dev # rest) s = selectLoop (Suc i) rest (selectStep i dev s)"

definition SelectDevice :: "string \<Rightarrow> MidiService \<Rightarrow> MidiService" where
  "SelectDevice name s =
     (let s0 = s\<lparr>deviceName := name\<rparr>;
          (skipStart, s1) =
            (case inDevice s0 of
               None \<Rightarrow> (False, s0)
             | Some i \<Rightarrow>
                 if deviceName s0 \<noteq> GetName (inList s0 ! i)
                 then (False, s0\<lparr>calls := calls s0 @ [InStop i, InClose i], inDevice := None\<rparr>)
                 else (True, s0));
          s2 = (if \<not> skipStart then selectLoop 0 (inList s1) s1 else s1)
      in if inDevice s2 = None
         then s2\<lparr>calls := calls s2 @
                [TraceLog ''MIDI'' (''MIDI interface '' @ deviceName s2 @ '' not found'')]\<rparr>
         else s2)"

text \<open>
  The loop of \<open>startOutDevice\<close> over the output devices stops (\<open>break\<close>) at the first
  device whose name matches.
\<close>

fun startOutLoop :: "nat \<Rightarrow> MidiDevice list \<Rightarrow> MidiService \<Rightarrow> MidiService" where
  "startOutLoop i [] s = s"
| "startOutLoop i (current # rest) s =
     (if deviceName s = GetName current then
        (let s1 = s\<lparr>calls := calls s @ [OutInit i]\<rparr>
         in if InitResult current then
              (let s2 = s1\<lparr>calls := calls s1 @ [OutStart i]\<rparr>
               in if StartResult current then
                    s2\<lparr>calls := calls s2 @
                         [TraceLog ''MidiService'' (''midi device '' @ deviceName s @ '' started'')],
                       outDevice := Some i\<rparr>
                  else
                    s2\<lparr>calls := calls s2 @
                         [TraceLog ''MidiService''
                            (''midi device '' @ deviceName s @ '' failed to start''),
                          OutClose i]\<rparr>)
            else s1)
      else startOutLoop (Suc i) rest s)"

definition startOutDevice :: "MidiService \<Rightarrow> MidiService" where
  "startOutDevice s = startOutLoop 0 (outList s) s"

text \<open>
  \<open>OnPlayerStart\<close>, \<open>OnPlayerStop\<close> and \<open>Trigger\<close> build a default \<open>MidiMessage\<close> and
  set its status byte. The default constructor belongs to the absent message
  class: the message it builds is the argument \<open>msg\<close>. \<open>SyncMaster::MidiSlice()\<close> is
  an external predicate: its answer is the argument \<open>midiSlice\<close>.
\<close>

definition OnPlayerStart :: "MidiMessage \<Rightarrow> MidiService \<Rightarrow> MidiService" where
  "OnPlayerStart msg s =
     (let s1 = (if length (deviceName s) \<noteq> 0
                then (startOutDevice (stopOutDevice s))\<lparr>deviceName := []\<rparr>
                else startOutDevice s)
      in if sendSync s1 then QueueMessage (msg\<lparr>status := 0xFA\<rparr>) s1 else s1)"

definition OnPlayerStop :: "MidiMessage \<Rightarrow> MidiService \<Rightarrow> MidiService" where
  "OnPlayerStop msg s =
     (if sendSync s then QueueMessage (msg\<lparr>status := 0xFC\<rparr>) s else s)"

definition Trigger :: "bool \<Rightarrow> MidiMessage \<Rightarrow> MidiService \<Rightarrow> MidiService" where
  "Trigger midiSlice msg s =
     (let s1 = AdvancePlayQueue s
      in if outDevice s1 \<noteq> None \<and> sendSync s1 then
           (if midiSlice then QueueMessage (msg\<lparr>status := 0xF8\<rparr>) s1 else s1)
         else s1)"

text \<open>
  The calls of the trace that stop, start or close an input device.
\<close>

fun stop_start_close :: "call \<Rightarrow> bool" where
  "stop_start_close (InStop i) = True"
| "stop_start_close (InStart i) = True"
| "stop_start_close (InClose i) = True"
| "stop_start_close c = False"

text \<open>
  Modelled from the spec: the lifecycle of a device, Closed, then Open, then Running,
  and back (section 4.3). The device classes are not part of the source at hand; the
  state of the input device at position \<open>k\<close> is read off the trace of the calls made
  on it: a successful \<open>Init\<close> opens it, a successful \<open>Start\<close> makes it run, \<open>Stop\<close> ends
  the running and \<open>Close\<close> closes it.
\<close>

datatype lifecycle = Closed | Opened | Running

fun lifecycle_step :: "MidiDevice \<Rightarrow> nat \<Rightarrow> lifecycle \<Rightarrow> call \<Rightarrow> lifecycle" where
  "lifecycle_step dev k st (InInit j) = (if j = k \<and> InitResult dev then Opened else st)"
| "lifecycle_step dev k st (InStart j) = (if j = k \<and> StartResult dev then Running else st)"
| "lifecycle_step dev k st (InStop j) = (if j = k \<and> st = Running then Opened else st)"
| "lifecycle_step dev k st (InClose j) = (if j = k then Closed else st)"
| "lifecycle_step dev k st c = st"

definition in_state :: "MidiService \<Rightarrow> nat \<Rightarrow> lifecycle" where
  "in_state s k = foldl (lifecycle_step (inList s ! k) k) Closed (calls s)"

text \<open>
  The search of \<open>SelectDevice\<close> in the specification's words: look through the
  registry for the devices that carry the name; open such a device, on success
  start it, and on a start failure close it again. \<open>candidates i name devs\<close> lists
  the devices of \<open>devs\<close> named \<open>name\<close> with their positions (counted from \<open>i\<close>), in
  registry order; \<open>open_calls\<close> is what opening one candidate calls and reports;
  \<open>search_bound\<close> is the device left bound, the last candidate that opened.
\<close>

fun candidates :: "nat \<Rightarrow> string \<Rightarrow> MidiDevice list \<Rightarrow> (nat \<times> MidiDevice) list" where
  "candidates i name [] = []"
| "candidates i name (dev # rest) =
     (if GetName dev = name then [(i, dev)] else []) @ candidates (Suc i) name rest"

definition open_calls :: "nat \<times> MidiDevice \<Rightarrow> call list" where
  "open_calls c =
     (case c of (j, dev) \<Rightarrow>
        InInit j #
        (if InitResult dev then
           InStart j #
           (if StartResult dev then
              [TraceLog ''MIDI'' (''Controlling activated for MIDI interface '' @ GetName dev)]
            else
              [TraceLog ''MIDI'' (''Failed to start input for MIDI interface '' @ GetName dev),
               InClose j])
         else []))"

definition search_calls :: "string \<Rightarrow> MidiDevice list \<Rightarrow> call list" where
  "search_calls name devs = concat (map open_calls (candidates 0 name devs))"

definition bound_of :: "(nat \<times> MidiDevice) list \<Rightarrow> nat option \<Rightarrow> nat option" where
  "bound_of cs before =
     (case filter (\<lambda>c. InitResult (snd c)) cs of [] \<Rightarrow> before | c # r \<Rightarrow> Some (fst (last (c # r))))"

definition search_bound :: "string \<Rightarrow> MidiDevice list \<Rightarrow> nat option" where
  "search_bound name devs = bound_of (candidates 0 name devs) None"

definition not_found :: "string \<Rightarrow> nat option \<Rightarrow> call list" where
  "not_found name b =
     (case b of
        None \<Rightarrow> [TraceLog ''MIDI'' (''MIDI interface '' @ name @ '' not found'')]
      | Some k \<Rightarrow> [])"

section \<open>Runs of the ring operations\<close>

text \<open>
  The calls the playback engine and the audio driver make on the ring, named as in
  the specification: \<open>AdvanceWrite\<close> is \<open>AdvancePlayQueue\<close>, \<open>Enqueue\<close> is
  \<open>QueueMessage\<close>, \<open>RequestFlush\<close> is \<open>Flush\<close> and \<open>OnTick\<close> is \<open>onAudioTick\<close>.
\<close>

datatype event = AdvanceWrite | Enqueue MidiMessage | RequestFlush | OnTick

fun exec :: "event \<Rightarrow> MidiService \<Rightarrow> MidiService" where
  "exec AdvanceWrite s = AdvancePlayQueue s"
| "exec (Enqueue m) s = QueueMessage m s"
| "exec RequestFlush s = Flush s"
| "exec OnTick s = onAudioTick s"

fun run :: "event list \<Rightarrow> MidiService \<Rightarrow> MidiService" where
  "run [] s = s"
| "run (e # es) s = run es (exec e s)"

text \<open>
  \<open>no_overwrite es s\<close>: in the run of \<open>es\<close> from \<open>s\<close>, every \<open>AdvanceWrite\<close> enters a
  slot that holds no message (\<open>AdvancePlayQueue\<close> empties the slot it enters, so a
  message still in it would be destroyed without having been sent).
\<close>

fun no_overwrite :: "event list \<Rightarrow> MidiService \<Rightarrow> bool" where
  "no_overwrite [] s = True"
| "no_overwrite (AdvanceWrite # es) s =
     (queues s ! ((currentPlayQueue s + 1) mod MIDI_MAX_BUFFERS s) = [] \<and>
      no_overwrite es (exec AdvanceWrite s))"
| "no_overwrite (e # es) s = no_overwrite es (exec e s)"

text \<open>
  A playback step is \<open>AdvanceWrite\<close>, then the step's enqueues, then one
  \<open>RequestFlush\<close>. Audio ticks may arrive anywhere: \<open>body\<close> lists what happens between
  \<open>AdvanceWrite\<close> and \<open>RequestFlush\<close> (\<open>Some m\<close> enqueues \<open>m\<close>, \<open>None\<close> is a tick), and \<open>k\<close>
  ticks follow the \<open>RequestFlush\<close> before the next step begins.
\<close>

definition step_events :: "MidiMessage option list \<Rightarrow> nat \<Rightarrow> event list" where
  "step_events body k =
     AdvanceWrite # map (case_option OnTick Enqueue) body @ RequestFlush # replicate k OnTick"

definition step_batch :: "MidiMessage option list \<Rightarrow> MidiMessage list" where
  "step_batch body = List.map_filter id body"

fun schedule :: "(MidiMessage option list \<times> nat) list \<Rightarrow> event list" where
  "schedule [] = []"
| "schedule ((body, k) # cs) = step_events body k @ schedule cs"

text \<open>
  \<open>ring_idle s\<close>: the service has a ring, both cursors are on the same slot, every
  slot is empty and no flush is armed. This is the state after construction and
  \<open>Start\<close> (with no countdown pending), and the state between two steps when every
  flush has fired.
\<close>

definition ring_idle :: "MidiService \<Rightarrow> bool" where
  "ring_idle s =
     (queues s \<noteq> [] \<and> currentPlayQueue s = currentOutQueue s \<and>
      list_all (\<lambda>q. q = []) (queues s) \<and> tickToFlush s \<le> 0)"

text \<open>
  The condition on an interleaving of steps and ticks that no \<open>RequestFlush\<close> arrives
  while the countdown of the step before is still running: between two consecutive
  \<open>RequestFlush\<close> calls (after the first, or inside the body of the next step) there
  are at least \<open>d\<close> ticks. The ticks after the last \<open>RequestFlush\<close> are free.
\<close>

definition body_ticks :: "MidiMessage option list \<Rightarrow> nat" where
  "body_ticks body = length (filter (\<lambda>x. x = None) body)"

fun unpreempted :: "int \<Rightarrow> (MidiMessage option list \<times> nat) list \<Rightarrow> bool" where
  "unpreempted d [] = True"
| "unpreempted d [c] = True"
| "unpreempted d ((b1, k1) # (b2, k2) # cs) =
     (d \<le> int (k1 + body_ticks b2) \<and> unpreempted d ((b2, k2) # cs))"

text \<open>
  \<open>fired d cs\<close>: the steps of \<open>cs\<close> whose countdown has run out when the run ends: all
  of them, but for a last step followed by fewer than \<open>d\<close> ticks.
\<close>

definition fired ::
  "int \<Rightarrow> (MidiMessage option list \<times> nat) list \<Rightarrow> (MidiMessage option list \<times> nat) list" where
  "fired d cs = (if cs = [] \<or> d \<le> int (snd (last cs)) then cs else butlast cs)"

text \<open>
  The shapes of the ring between and inside steps, with \<open>N\<close> the number of slots.
  \<open>awaiting s pb\<close>: a step is complete and its batch \<open>pb\<close> waits in the slot under the
  write cursor, one slot ahead of the read cursor, for a running countdown.
  \<open>in_step s b\<close>: a step is being written, its messages so far are \<open>b\<close>, nothing else
  is in the ring and no countdown runs. \<open>in_step_awaiting s pb b\<close>: a step is being
  written two slots ahead of the read cursor while the batch \<open>pb\<close> of the step
  before still waits for its countdown. \<open>boundary\<close> is the shape between two steps.
\<close>

definition awaiting :: "MidiService \<Rightarrow> MidiMessage list \<Rightarrow> bool" where
  "awaiting s pb =
     (2 \<le> length (queues s) \<and> 0 < tickToFlush s \<and>
      currentPlayQueue s = (currentOutQueue s + 1) mod length (queues s) \<and>
      queues s = (replicate (length (queues s)) [])[currentPlayQueue s := pb])"

definition in_step :: "MidiService \<Rightarrow> MidiMessage list \<Rightarrow> bool" where
  "in_step s b =
     (queues s \<noteq> [] \<and> tickToFlush s \<le> 0 \<and>
      currentPlayQueue s = (currentOutQueue s + 1) mod length (queues s) \<and>
      queues s = (replicate (length (queues s)) [])[currentPlayQueue s := b])"

definition in_step_awaiting :: "MidiService \<Rightarrow> MidiMessage list \<Rightarrow> MidiMessage list \<Rightarrow> bool" where
  "in_step_awaiting s pb b =
     (2 \<le> length (queues s) \<and> 0 < tickToFlush s \<and>
      currentPlayQueue s = (currentOutQueue s + 2) mod length (queues s) \<and>
      queues s = (replicate (length (queues s)) [])
                   [(currentOutQueue s + 1) mod length (queues s) := pb,
                    currentPlayQueue s := b])"

definition boundary :: "MidiService \<Rightarrow> MidiMessage list option \<Rightarrow> bool" where
  "boundary s pend = (case pend of None \<Rightarrow> ring_idle s | Some pb \<Rightarrow> awaiting s pb)"

definition waiting :: "MidiMessage list option \<Rightarrow> MidiMessage list list" where
  "waiting pend = (case pend of None \<Rightarrow> [] | Some pb \<Rightarrow> [pb])"

text \<open>
  The scenario of the specification up to the first tick: two steps, of which only
  the second requests a flush. The second tick is appended where it is needed.
\<close>

definition scenario :: "MidiMessage \<Rightarrow> MidiMessage \<Rightarrow> event list" where
  "scenario a b = [AdvanceWrite, Enqueue a, AdvanceWrite, Enqueue b, RequestFlush, OnTick]"

section \<open>Concrete states used to instantiate the theorems\<close>

definition noteA :: MidiMessage where
  "noteA = \<lparr>status = 0x90, data1 = 60, data2 = 100\<rparr>"

definition noteB :: MidiMessage where
  "noteB = \<lparr>status = 0x90, data1 = 62, data2 = 100\<rparr>"

definition port :: MidiDevice where
  "port = \<lparr>GetName = ''port'', InitResult = True, StartResult = True\<rparr>"

text \<open>A started service with four slots, output device 0 bound and the given delay.\<close>

definition ring4 :: "int \<Rightarrow> MidiService" where
  "ring4 d =
     \<lparr>outList = [port], inList = [], inDevice = None, outDevice = Some 0,
      sendSync = False, queues = [[], [], [], []], midiDelay = d, deviceName = [],
      currentPlayQueue = 0, currentOutQueue = 0, tickToFlush = 0, calls = []\<rparr>"

text \<open>A service bound to no device at all, with the given delay.\<close>

definition unbound4 :: "int \<Rightarrow> MidiService" where
  "unbound4 d = (ring4 d)\<lparr>outDevice := None\<rparr>"

text \<open>A configuration whose delay is not a number, and one with no delay at all.\<close>

definition badDelayConfig :: Config where
  "badDelayConfig = [''MIDIDELAY'' \<mapsto> ''abc'']"

definition noDelayConfig :: Config where
  "noDelayConfig = Map.empty"

text \<open>
  A service with two input devices: \<open>pad\<close> opens but fails to start, \<open>keys\<close> opens
  and starts.
\<close>

definition pad :: MidiDevice where
  "pad = \<lparr>GetName = ''pad'', InitResult = True, StartResult = False\<rparr>"

definition keys :: MidiDevice where
  "keys = \<lparr>GetName = ''keys'', InitResult = True, StartResult = True\<rparr>"

definition studio :: MidiService where
  "studio = Init [port] [pad, keys] (ring4 1)"

text \<open>
  A service with a third input device, \<open>organ\<close>, which opens and starts; \<open>hallKeys\<close>
  is that service after \<open>keys\<close> has been selected.
\<close>

definition organ :: MidiDevice where
  "organ = \<lparr>GetName = ''organ'', InitResult = True, StartResult = True\<rparr>"

definition hall :: MidiService where
  "hall = Init [port] [pad, keys, organ] (ring4 1)"

definition hallKeys :: MidiService where
  "hallKeys = SelectDevice ''keys'' hall"

text \<open>
  A running service that has \<open>noteA\<close> waiting in slot 1 and whose output device is
  selected by name.
\<close>

definition stale4 :: MidiService where
  "stale4 = (ring4 2)\<lparr>queues := [[], [noteA], [], []], currentPlayQueue := 1,
                      deviceName := ''port''\<rparr>"

text \<open>
  Five steps of one message each, every step followed by a single tick.
\<close>

definition hurried :: "(MidiMessage option list \<times> nat) list" where
  "hurried = replicate 5 ([Some noteA], 1)"

text \<open>
  Five steps with delay 2 in mind: one tick follows each \<open>RequestFlush\<close> and the
  second tick of the countdown falls inside the next step, after its \<open>AdvanceWrite\<close>.
  Two ticks follow the last step.
\<close>

definition pipelined :: "(MidiMessage option list \<times> nat) list" where
  "pipelined = [([Some noteA], 1), ([None, Some noteB], 1), ([Some noteA, None, Some noteB], 1),
                ([None], 1), ([Some noteB, None], 2)]"

text \<open>A single step followed by one tick.\<close>

definition lone_step :: "(MidiMessage option list \<times> nat) list" where
  "lone_step = [([Some noteA, Some noteB], 1)]"

text \<open>A started service with a single slot.\<close>

definition ring1 :: "int \<Rightarrow> MidiService" where
  "ring1 d = (ring4 d)\<lparr>queues := [[]]\<rparr>"

section \<open>The flush scheduler\<close>

lemma flushOutQueue_tickToFlush [simp]: "tickToFlush (flushOutQueue s) = tickToFlush s"
  by (simp add: flushOutQueue_def Let_def split: option.splits)

lemma onAudioTick_idle: "tickToFlush s \<le> 0 \<Longrightarrow> onAudioTick s = s"
  by (simp add: onAudioTick_def)

lemma ticks_idle: "tickToFlush s \<le> 0 \<Longrightarrow> ticks n s = s"
  by (induction n) (simp_all add: onAudioTick_idle)

lemma ticks_add: "ticks (m + n) s = ticks n (ticks m s)"
  by (induction m arbitrary: s) simp_all

lemma ticks_counting:
  "int j < r \<Longrightarrow> tickToFlush s = r \<Longrightarrow> ticks j s = s\<lparr>tickToFlush := r - int j\<rparr>"
proof (induction j arbitrary: s r)
  case 0
  then show ?case by simp
next
  case (Suc j)
  from Suc.prems have step: "onAudioTick s = s\<lparr>tickToFlush := r - 1\<rparr>"
    by (simp add: onAudioTick_def)
  from Suc.prems have "int j < r - 1" by simp
  then have "ticks j (s\<lparr>tickToFlush := r - 1\<rparr>) = s\<lparr>tickToFlush := r - 1 - int j\<rparr>"
    using Suc.IH [of "r - 1" "s\<lparr>tickToFlush := r - 1\<rparr>"] by simp
  with step show ?case by (simp add: algebra_simps)
qed

lemma ticks_firing:
  assumes "0 < r" and "tickToFlush s = r"
  shows "ticks (nat r) s = flushOutQueue (s\<lparr>tickToFlush := 0\<rparr>)"
proof -
  obtain j where j: "nat r = Suc j" using assms(1) by (cases "nat r") auto
  then have jr: "int j < r" and rj: "r - int j = 1" by linarith+
  have "ticks j s = s\<lparr>tickToFlush := 1\<rparr>"
    using ticks_counting [OF jr assms(2)] rj by simp
  moreover have "ticks (Suc j) s = onAudioTick (ticks j s)"
    using ticks_add [of j 1 s] by simp
  ultimately show ?thesis using j by (simp add: onAudioTick_def)
qed

lemma Flush_armed: "midiDelay s \<noteq> 0 \<Longrightarrow> Flush s = s\<lparr>tickToFlush := midiDelay s\<rparr>"
  by (simp add: Flush_def)

lemma Flush_immediate: "midiDelay s = 0 \<Longrightarrow> Flush s = flushOutQueue (s\<lparr>tickToFlush := 0\<rparr>)"
  by (simp add: Flush_def)

lemma onAudioTick_fires:
  "onAudioTick s =
     (if fires s then flushOutQueue (s\<lparr>tickToFlush := 0\<rparr>)
      else if 0 < tickToFlush s then s\<lparr>tickToFlush := tickToFlush s - 1\<rparr>
      else s)"
  by (simp add: onAudioTick_def fires_def)

lemma drains_idle: "tickToFlush s \<le> 0 \<Longrightarrow> drains n s = 0"
  by (induction n) (simp_all add: onAudioTick_idle fires_def)

lemma drains_add: "drains (m + n) s = drains m s + drains n (ticks m s)"
  by (induction m arbitrary: s) simp_all

lemma drains_counting: "int j < r \<Longrightarrow> tickToFlush s = r \<Longrightarrow> drains j s = 0"
proof (induction j arbitrary: s r)
  case 0
  show ?case by simp
next
  case (Suc j)
  from Suc.prems have nf: "\<not> fires s" by (simp add: fires_def)
  from Suc.prems have step: "onAudioTick s = s\<lparr>tickToFlush := r - 1\<rparr>"
    by (simp add: onAudioTick_def)
  from Suc.prems have "int j < r - 1" by simp
  then have "drains j (s\<lparr>tickToFlush := r - 1\<rparr>) = 0"
    by (rule Suc.IH) simp
  with nf step show ?case by simp
qed

lemma drains_firing:
  assumes "0 < r" and "tickToFlush s = r"
  shows "drains (nat r + i) s = 1"
proof -
  obtain j where j: "nat r = Suc j" using assms(1) by (cases "nat r") auto
  then have jr: "int j < r" and rj: "r - int j = 1" by linarith+
  have before: "drains j s = 0" using jr assms(2) by (rule drains_counting)
  have at: "ticks j s = s\<lparr>tickToFlush := 1\<rparr>"
    using ticks_counting [OF jr assms(2)] rj by simp
  have "drains (j + Suc i) s = drains j s + drains (Suc i) (ticks j s)"
    by (rule drains_add)
  also have "\<dots> = 1"
    by (simp add: before at fires_def onAudioTick_def drains_idle)
  finally show ?thesis using j by simp
qed

lemma drains_after_Flush:
  "drains n (Flush s) = (if 0 < midiDelay s \<and> midiDelay s \<le> int n then 1 else 0)"
proof -
  consider "midiDelay s = 0" | "midiDelay s < 0" | "0 < midiDelay s" "int n < midiDelay s"
    | "0 < midiDelay s" "midiDelay s \<le> int n" by linarith
  then show ?thesis
  proof cases
    case 1
    then show ?thesis by (simp add: Flush_immediate drains_idle)
  next
    case 2
    then show ?thesis by (simp add: Flush_armed drains_idle)
  next
    case 3
    have "drains n (s\<lparr>tickToFlush := midiDelay s\<rparr>) = 0"
      using 3(2) by (rule drains_counting) simp
    with 3 show ?thesis by (simp add: Flush_armed)
  next
    case 4
    then obtain i where n: "n = nat (midiDelay s) + i"
      by (metis le_add_diff_inverse nat_le_iff)
    have "drains (nat (midiDelay s) + i) (s\<lparr>tickToFlush := midiDelay s\<rparr>) = 1"
      using 4(1) by (rule drains_firing) simp
    with 4 show ?thesis by (simp add: Flush_armed n)
  qed
qed

text \<open>
  C5. \<open>Flush\<close> (requestFlush) arms the countdown with the configured delay
  \<open>midiDelay\<close>. With delay 0 the drain \<open>flushOutQueue\<close> is performed inside \<open>Flush\<close>.
  With delay \<open>k > 0\<close>, after any \<open>j < k\<close> ticks nothing but the countdown has changed
  (no drain yet), the \<open>k\<close>-th tick performs the drain, and every later tick leaves the
  state as it was after that single drain. A tick that finds no flush armed
  (\<open>tickToFlush \<le> 0\<close>) changes nothing. Counted over any \<open>n\<close> ticks after the \<open>Flush\<close>,
  the number of ticks that drain is 1 if \<open>0 < k \<le> n\<close> and 0 otherwise.
\<close>

theorem Flush_drains_at_kth_tick:
  "(midiDelay s = 0 \<longrightarrow> Flush s = flushOutQueue (s\<lparr>tickToFlush := 0\<rparr>)) \<and>
   (0 < midiDelay s \<longrightarrow>
      (int j < midiDelay s \<longrightarrow>
         ticks j (Flush s) = s\<lparr>tickToFlush := midiDelay s - int j\<rparr>) \<and>
      ticks (nat (midiDelay s)) (Flush s) = flushOutQueue (s\<lparr>tickToFlush := 0\<rparr>) \<and>
      ticks (nat (midiDelay s) + i) (Flush s) = flushOutQueue (s\<lparr>tickToFlush := 0\<rparr>)) \<and>
   (tickToFlush t \<le> 0 \<longrightarrow> onAudioTick t = t) \<and>
   drains n (Flush s) = (if 0 < midiDelay s \<and> midiDelay s \<le> int n then 1 else 0)"
proof (intro conjI impI)
  show "drains n (Flush s) = (if 0 < midiDelay s \<and> midiDelay s \<le> int n then 1 else 0)"
    by (rule drains_after_Flush)
next
  assume "midiDelay s = 0"
  then show "Flush s = flushOutQueue (s\<lparr>tickToFlush := 0\<rparr>)" by (rule Flush_immediate)
next
  assume k: "0 < midiDelay s" and j: "int j < midiDelay s"
  have "ticks j (s\<lparr>tickToFlush := midiDelay s\<rparr>) = s\<lparr>tickToFlush := midiDelay s - int j\<rparr>"
    using ticks_counting [OF j, of "s\<lparr>tickToFlush := midiDelay s\<rparr>"] by simp
  with k show "ticks j (Flush s) = s\<lparr>tickToFlush := midiDelay s - int j\<rparr>"
    by (simp add: Flush_armed)
next
  assume k: "0 < midiDelay s"
  have "ticks (nat (midiDelay s)) (s\<lparr>tickToFlush := midiDelay s\<rparr>) = flushOutQueue (s\<lparr>tickToFlush := 0\<rparr>)"
    using ticks_firing [OF k, of "s\<lparr>tickToFlush := midiDelay s\<rparr>"] by simp
  with k show fired: "ticks (nat (midiDelay s)) (Flush s) = flushOutQueue (s\<lparr>tickToFlush := 0\<rparr>)"
    by (simp add: Flush_armed)
  then show "ticks (nat (midiDelay s) + i) (Flush s) = flushOutQueue (s\<lparr>tickToFlush := 0\<rparr>)"
    by (simp add: ticks_add ticks_idle)
next
  assume "tickToFlush t \<le> 0"
  then show "onAudioTick t = t" by (rule onAudioTick_idle)
qed

theorem Flush_drains_at_kth_tick_witness:
  "midiDelay (ring4 0) = 0 \<and>
   Flush (ring4 0) = flushOutQueue ((ring4 0)\<lparr>tickToFlush := 0\<rparr>) \<and>
   0 < midiDelay (ring4 2) \<and> int 1 < midiDelay (ring4 2) \<and>
   ticks 1 (Flush (ring4 2)) = (ring4 2)\<lparr>tickToFlush := 1\<rparr> \<and>
   ticks 2 (Flush (ring4 2)) = flushOutQueue ((ring4 2)\<lparr>tickToFlush := 0\<rparr>) \<and>
   ticks (2 + 3) (Flush (ring4 2)) = flushOutQueue ((ring4 2)\<lparr>tickToFlush := 0\<rparr>) \<and>
   tickToFlush (ring4 2) \<le> 0 \<and> onAudioTick (ring4 2) = ring4 2"
proof -
  have d0: "midiDelay (ring4 0) = 0" and d2: "midiDelay (ring4 2) = 2"
    and t2: "tickToFlush (ring4 2) = 0"
    by (simp_all add: ring4_def)
  have n2: "nat 2 = (2::nat)" by simp
  note at0 = Flush_drains_at_kth_tick [of "ring4 0" 0 0 "ring4 2"]
  note at2 = Flush_drains_at_kth_tick [of "ring4 2" 1 3 "ring4 2", unfolded d2 t2 n2]
  have "Flush (ring4 0) = flushOutQueue ((ring4 0)\<lparr>tickToFlush := 0\<rparr>)"
    using at0 d0 by simp
  moreover have "ticks 1 (Flush (ring4 2)) = (ring4 2)\<lparr>tickToFlush := 1\<rparr>"
    using at2 by simp
  moreover have "ticks 2 (Flush (ring4 2)) = flushOutQueue ((ring4 2)\<lparr>tickToFlush := 0\<rparr>)"
    using at2 by simp
  moreover have "ticks (2 + 3) (Flush (ring4 2)) = flushOutQueue ((ring4 2)\<lparr>tickToFlush := 0\<rparr>)"
  proof -
    have "(0::int) < 2" by simp
    with at2 show ?thesis by blast
  qed
  moreover have "onAudioTick (ring4 2) = ring4 2"
    using at2 by simp
  ultimately show ?thesis using d0 d2 t2 by simp
qed

lemma ticks_after_Flush:
  "ticks n (Flush s) = flushOutQueue (s\<lparr>tickToFlush := 0\<rparr>) \<or>
   (\<exists>r. ticks n (Flush s) = s\<lparr>tickToFlush := r\<rparr>)"
proof -
  consider "midiDelay s = 0" | "midiDelay s < 0" | "0 < midiDelay s" "int n < midiDelay s"
    | "0 < midiDelay s" "midiDelay s \<le> int n" by linarith
  then show ?thesis
  proof cases
    case 1
    then show ?thesis by (simp add: Flush_immediate ticks_idle)
  next
    case 2
    then have "ticks n (Flush s) = s\<lparr>tickToFlush := midiDelay s\<rparr>"
      by (simp add: Flush_armed ticks_idle)
    then show ?thesis by blast
  next
    case 3
    have "ticks n (s\<lparr>tickToFlush := midiDelay s\<rparr>) = s\<lparr>tickToFlush := midiDelay s - int n\<rparr>"
      using ticks_counting [OF 3(2), of "s\<lparr>tickToFlush := midiDelay s\<rparr>"] by simp
    with 3 have "ticks n (Flush s) = s\<lparr>tickToFlush := midiDelay s - int n\<rparr>"
      by (simp add: Flush_armed)
    then show ?thesis by blast
  next
    case 4
    then obtain i where n: "n = nat (midiDelay s) + i"
      by (metis le_add_diff_inverse nat_le_iff)
    have "ticks (nat (midiDelay s)) (s\<lparr>tickToFlush := midiDelay s\<rparr>) = flushOutQueue (s\<lparr>tickToFlush := 0\<rparr>)"
      using ticks_firing [OF 4(1), of "s\<lparr>tickToFlush := midiDelay s\<rparr>"] by simp
    with 4 have "ticks (nat (midiDelay s)) (Flush s) = flushOutQueue (s\<lparr>tickToFlush := 0\<rparr>)"
      by (simp add: Flush_armed)
    then show ?thesis unfolding n by (simp add: ticks_add ticks_idle)
  qed
qed

lemma Flush_forgets_countdown: "Flush (s\<lparr>tickToFlush := r\<rparr>) = Flush s"
  by (simp add: Flush_def)

lemma rearm_during_countdown:
  assumes j: "int j < midiDelay s"
  shows "Flush (ticks j (Flush s)) = Flush s"
proof -
  from j have pos: "0 < midiDelay s" by linarith
  have "ticks j (s\<lparr>tickToFlush := midiDelay s\<rparr>) = s\<lparr>tickToFlush := midiDelay s - int j\<rparr>"
    using ticks_counting [OF j, of "s\<lparr>tickToFlush := midiDelay s\<rparr>"] by simp
  with pos have "ticks j (Flush s) = s\<lparr>tickToFlush := midiDelay s - int j\<rparr>"
    by (simp add: Flush_armed)
  then show ?thesis by (simp add: Flush_forgets_countdown)
qed

text \<open>
  C6. A \<open>Flush\<close> issued while a countdown is in progress (after \<open>j < midiDelay\<close> ticks
  of an earlier \<open>Flush\<close>) leaves exactly the state of a first \<open>Flush\<close>: the ticks already
  counted are forgotten, and the drain comes \<open>midiDelay\<close> ticks after the second
  \<open>Flush\<close>. Whatever the number \<open>n\<close> of ticks that follow an arm (re-armed or not), the
  state is either the armed state with only the countdown changed (no drain) or the
  state after one single \<open>flushOutQueue\<close>. Counting the ticks that drain: at most one
  after an arm, and at most one in all over an arm, \<open>j\<close> ticks, a second arm and any
  number of ticks: no arm drains twice, and the replaced arm does not drain.
\<close>

theorem rearm_replaces_countdown:
  "(int j < midiDelay s \<longrightarrow>
      Flush (ticks j (Flush s)) = Flush s \<and>
      ticks (nat (midiDelay s)) (Flush (ticks j (Flush s))) =
        flushOutQueue (s\<lparr>tickToFlush := 0\<rparr>) \<and>
      (ticks n (Flush (ticks j (Flush s))) = flushOutQueue (s\<lparr>tickToFlush := 0\<rparr>) \<or>
       (\<exists>r. ticks n (Flush (ticks j (Flush s))) = s\<lparr>tickToFlush := r\<rparr>))) \<and>
   (ticks n (Flush s) = flushOutQueue (s\<lparr>tickToFlush := 0\<rparr>) \<or>
    (\<exists>r. ticks n (Flush s) = s\<lparr>tickToFlush := r\<rparr>)) \<and>
   (int j < midiDelay s \<longrightarrow>
      drains j (Flush s) + drains n (Flush (ticks j (Flush s))) \<le> 1) \<and>
   drains n (Flush s) \<le> 1"
proof (intro conjI impI)
  show "drains n (Flush s) \<le> 1" by (simp add: drains_after_Flush)
next
  assume j: "int j < midiDelay s"
  then have "drains j (Flush s) = 0" by (simp add: drains_after_Flush)
  moreover have "drains n (Flush (ticks j (Flush s))) \<le> 1"
    by (simp add: rearm_during_countdown [OF j] drains_after_Flush)
  ultimately show "drains j (Flush s) + drains n (Flush (ticks j (Flush s))) \<le> 1" by simp
next
  assume j: "int j < midiDelay s"
  then have pos: "0 < midiDelay s" by linarith
  show again: "Flush (ticks j (Flush s)) = Flush s"
    using j by (rule rearm_during_countdown)
  have "ticks (nat (midiDelay s)) (s\<lparr>tickToFlush := midiDelay s\<rparr>) =
          flushOutQueue (s\<lparr>tickToFlush := 0\<rparr>)"
    using ticks_firing [OF pos, of "s\<lparr>tickToFlush := midiDelay s\<rparr>"] by simp
  with pos have "ticks (nat (midiDelay s)) (Flush s) = flushOutQueue (s\<lparr>tickToFlush := 0\<rparr>)"
    by (simp add: Flush_armed)
  then show "ticks (nat (midiDelay s)) (Flush (ticks j (Flush s))) =
      flushOutQueue (s\<lparr>tickToFlush := 0\<rparr>)"
    unfolding again .
  show "ticks n (Flush (ticks j (Flush s))) = flushOutQueue (s\<lparr>tickToFlush := 0\<rparr>) \<or>
       (\<exists>r. ticks n (Flush (ticks j (Flush s))) = s\<lparr>tickToFlush := r\<rparr>)"
    unfolding again by (rule ticks_after_Flush)
next
  show "ticks n (Flush s) = flushOutQueue (s\<lparr>tickToFlush := 0\<rparr>) \<or>
    (\<exists>r. ticks n (Flush s) = s\<lparr>tickToFlush := r\<rparr>)"
    by (rule ticks_after_Flush)
qed

theorem rearm_replaces_countdown_witness:
  "int 1 < midiDelay (ring4 2) \<and>
   Flush (ticks 1 (Flush (ring4 2))) = Flush (ring4 2) \<and>
   ticks (nat (midiDelay (ring4 2))) (Flush (ticks 1 (Flush (ring4 2)))) =
     flushOutQueue ((ring4 2)\<lparr>tickToFlush := 0\<rparr>)"
proof -
  have lt: "int 1 < midiDelay (ring4 2)" by (simp add: ring4_def)
  from rearm_replaces_countdown [of 1 "ring4 2" 0] lt show ?thesis by blast
qed

section \<open>Draining\<close>

lemmas ring_defs = AdvancePlayQueue_def QueueMessage_def Flush_def onAudioTick_def
  flushOutQueue_def MIDI_MAX_BUFFERS_def Start_def

text \<open>
  C7. With no output device bound, \<open>flushOutQueue\<close> still advances the read cursor
  and empties the slot it reaches; nothing is sent (the trace of calls is unchanged)
  and nothing fails. Cursors, slots and countdown are then the same as after a
  drain with a device bound.
\<close>

theorem drain_without_output_device:
  assumes "outDevice s = None"
  shows "flushOutQueue s =
           s\<lparr>currentOutQueue := (currentOutQueue s + 1) mod MIDI_MAX_BUFFERS s,
             queues := (queues s)[(currentOutQueue s + 1) mod MIDI_MAX_BUFFERS s := []]\<rparr> \<and>
         calls (flushOutQueue s) = calls s \<and>
         queues (flushOutQueue s) = queues (flushOutQueue (s\<lparr>outDevice := Some d\<rparr>)) \<and>
         currentOutQueue (flushOutQueue s) =
           currentOutQueue (flushOutQueue (s\<lparr>outDevice := Some d\<rparr>)) \<and>
         currentPlayQueue (flushOutQueue s) =
           currentPlayQueue (flushOutQueue (s\<lparr>outDevice := Some d\<rparr>)) \<and>
         tickToFlush (flushOutQueue s) =
           tickToFlush (flushOutQueue (s\<lparr>outDevice := Some d\<rparr>))"
  using assms by (simp add: flushOutQueue_def MIDI_MAX_BUFFERS_def Let_def)

theorem drain_without_output_device_witness:
  "outDevice (unbound4 2) = None \<and>
   calls (flushOutQueue (unbound4 2)) = calls (unbound4 2) \<and>
   queues (flushOutQueue (unbound4 2)) =
     queues (flushOutQueue ((unbound4 2)\<lparr>outDevice := Some 0\<rparr>)) \<and>
   currentOutQueue (flushOutQueue (unbound4 2)) =
     currentOutQueue (flushOutQueue ((unbound4 2)\<lparr>outDevice := Some 0\<rparr>))"
proof -
  have none: "outDevice (unbound4 2) = None" by (simp add: unbound4_def)
  from drain_without_output_device [OF none, of 0] none show ?thesis by blast
qed

text \<open>
  C1, as the code behaves. From a started service with four slots, delay 2 and an
  output device \<open>d\<close> bound, the scenario sends nothing up to and including the first
  tick; the second tick performs the one drain, and the batch handed to \<open>SendQueue\<close>
  is \<open>[a]\<close>, the content of slot 1 (the slot after the read cursor, filled by the
  first step). The message \<open>b\<close> of the second step stays in slot 2.
\<close>

theorem scenario_delivers_first_slot:
  assumes "outDevice s = Some d" and "length (queues s) = 4" and "midiDelay s = 2"
  shows "calls (run (scenario a b) (Start s)) = calls s \<and>
         calls (run (scenario a b @ [OnTick]) (Start s)) = calls s @ [SendQueue d [a]] \<and>
         queues (run (scenario a b @ [OnTick]) (Start s)) ! 2 = [b]"
  using assms by (simp add: scenario_def ring_defs numeral_2_eq_2)

theorem scenario_delivers_first_slot_witness:
  "outDevice (ring4 2) = Some 0 \<and> length (queues (ring4 2)) = 4 \<and> midiDelay (ring4 2) = 2 \<and>
   calls (run (scenario noteA noteB) (Start (ring4 2))) = [] \<and>
   calls (run (scenario noteA noteB @ [OnTick]) (Start (ring4 2))) = [SendQueue 0 [noteA]] \<and>
   queues (run (scenario noteA noteB @ [OnTick]) (Start (ring4 2))) ! 2 = [noteB]"
proof -
  have h: "outDevice (ring4 2) = Some 0" "length (queues (ring4 2)) = 4" "midiDelay (ring4 2) = 2"
    and c: "calls (ring4 2) = []"
    by (simp_all add: ring4_def)
  from scenario_delivers_first_slot [OF h, of noteA noteB] h c show ?thesis by simp
qed

text \<open>
  The scenario as the specification states it fails on the code: in the started
  service \<open>ring4 2\<close> the batch sent at the second tick is \<open>[noteA]\<close>, not \<open>[noteB]\<close>.
\<close>

theorem scenario_counterexample:
  "calls (run (scenario noteA noteB @ [OnTick]) (ring4 2)) = [SendQueue 0 [noteA]] \<and>
   calls (run (scenario noteA noteB @ [OnTick]) (ring4 2)) \<noteq> [SendQueue 0 [noteB]]"
  by (simp add: scenario_def ring4_def ring_defs noteA_def noteB_def)

section \<open>Teardown\<close>

text \<open>
  C9. \<open>Close\<close> reaches the call through \<open>inDevice_\<close> with no test. In every state with
  no active input device the result is the null-dereference error; the state built
  by the constructor is such a state. With an input device \<open>i\<close> bound, \<open>Close\<close> stops
  the output side and then calls \<open>Stop\<close> and \<open>Close\<close> on \<open>i\<close>.
\<close>

theorem Close_without_input_device:
  "(inDevice s = None \<longrightarrow> Close s = Inl NullDeviceDereference) \<and>
   Close (MidiService_new config n p out t) = Inl NullDeviceDereference \<and>
   (inDevice s = Some i \<longrightarrow>
      Close s = Inr ((Stop s)\<lparr>calls := calls (Stop s) @ [InStop i, InClose i]\<rparr>))"
  by (simp add: Close_def Stop_def stopOutDevice_def MidiService_new_def split: option.splits)

theorem Close_without_input_device_witness:
  "inDevice (ring4 2) = None \<and> Close (ring4 2) = Inl NullDeviceDereference \<and>
   inDevice ((ring4 2)\<lparr>inDevice := Some 0\<rparr>) = Some 0 \<and>
   Close ((ring4 2)\<lparr>inDevice := Some 0\<rparr>) =
     Inr ((Stop ((ring4 2)\<lparr>inDevice := Some 0\<rparr>))
            \<lparr>calls := calls (Stop ((ring4 2)\<lparr>inDevice := Some 0\<rparr>)) @ [InStop 0, InClose 0]\<rparr>)"
proof -
  have none: "inDevice (ring4 2) = None" by (simp add: ring4_def)
  have some: "inDevice ((ring4 2)\<lparr>inDevice := Some 0\<rparr>) = Some 0" by simp
  from Close_without_input_device [of "ring4 2" Map.empty 4 0 0 0 0] none
  have a: "Close (ring4 2) = Inl NullDeviceDereference" by blast
  from Close_without_input_device [of "(ring4 2)\<lparr>inDevice := Some 0\<rparr>" Map.empty 4 0 0 0 0] some
  have b: "Close ((ring4 2)\<lparr>inDevice := Some 0\<rparr>) =
     Inr ((Stop ((ring4 2)\<lparr>inDevice := Some 0\<rparr>))
            \<lparr>calls := calls (Stop ((ring4 2)\<lparr>inDevice := Some 0\<rparr>)) @ [InStop 0, InClose 0]\<rparr>)"
    by blast
  from none some a b show ?thesis by blast
qed

section \<open>Configuration\<close>

lemma digits_no_digit: "filter isdigit cs = [] \<Longrightarrow> digits cs = 0"
  by (cases cs) (simp_all add: digits_def split: if_splits)

lemma decimal_value_no_digit:
  assumes "filter isdigit v = []"
  shows "decimal_value v = 0"
proof (cases "dropWhile isspace v")
  case Nil
  show ?thesis unfolding decimal_value_def Nil by simp
next
  case (Cons c cs)
  have "set (dropWhile isspace v) \<subseteq> set v" by (rule set_dropWhileD [THEN subsetI])
  with Cons assms have nd: "filter isdigit (c # cs) = []"
    by (auto simp: filter_empty_conv)
  then have "digits (c # cs) = 0" by (rule digits_no_digit)
  moreover from nd have "digits cs = 0" by (intro digits_no_digit) (simp split: if_splits)
  ultimately show ?thesis unfolding decimal_value_def Cons by simp
qed

lemma atoi_no_digit: "filter isdigit v = [] \<Longrightarrow> atoi v = 0"
  by (simp add: atoi_def strtol_def int_of_long_def decimal_value_no_digit)

lemma atoi_range: "- (2 ^ 31) \<le> atoi v \<and> atoi v < 2 ^ 31"
proof -
  have "0 \<le> (strtol v + 2 ^ 31) mod 2 ^ 32" "(strtol v + 2 ^ 31) mod 2 ^ 32 < 2 ^ 32"
    by simp_all
  then show ?thesis by (simp add: atoi_def int_of_long_def)
qed

lemma atoi_exact:
  assumes "- (2 ^ 31) \<le> decimal_value v" and "decimal_value v < 2 ^ 31"
  shows "atoi v = decimal_value v"
proof -
  from assms have "strtol v = decimal_value v" by (simp add: strtol_def)
  moreover from assms have "(decimal_value v + 2 ^ 31) mod 2 ^ 32 = decimal_value v + 2 ^ 31"
    by (intro mod_pos_pos_trivial) simp_all
  ultimately show ?thesis by (simp add: atoi_def int_of_long_def)
qed

lemma atoi_examples:
  "atoi ''12abc'' = 12" "atoi '' -5'' = - 5" "atoi ''2147483647'' = 2147483647"
  "atoi ''2147483648'' = - 2147483648" "atoi ''99999999999999999999'' = - 1"
  by (simp_all add: atoi_def strtol_def int_of_long_def decimal_value_def isspace_def
      digits_def isdigit_def)

text \<open>
  C3, as the code behaves. The default of 1 tick is used only when \<open>MIDIDELAY\<close> is
  absent. When it is present the delay is \<open>atoi\<close> of its text, whatever the text, and
  so a value of the C type \<open>int\<close>: it is the number the text denotes when that number
  fits an \<open>int\<close>, and a value with no decimal digit in it gives the delay 0.
  Construction is a total function of the configuration: there is no failing branch.
\<close>

theorem delay_is_atoi_of_value:
  "(config ''MIDIDELAY'' = None \<longrightarrow> midiDelay (MidiService_new config n p out t) = 1) \<and>
   (config ''MIDIDELAY'' = Some v \<longrightarrow>
      midiDelay (MidiService_new config n p out t) = atoi v \<and>
      - (2 ^ 31) \<le> midiDelay (MidiService_new config n p out t) \<and>
      midiDelay (MidiService_new config n p out t) < 2 ^ 31) \<and>
   (config ''MIDIDELAY'' = Some v \<longrightarrow> - (2 ^ 31) \<le> decimal_value v \<longrightarrow>
      decimal_value v < 2 ^ 31 \<longrightarrow>
      midiDelay (MidiService_new config n p out t) = decimal_value v) \<and>
   (config ''MIDIDELAY'' = Some v \<longrightarrow> filter isdigit v = [] \<longrightarrow>
      midiDelay (MidiService_new config n p out t) = 0)"
proof (intro conjI impI)
  assume "config ''MIDIDELAY'' = None"
  then show "midiDelay (MidiService_new config n p out t) = 1"
    by (simp add: MidiService_new_def)
next
  assume v: "config ''MIDIDELAY'' = Some v"
  then show is_atoi: "midiDelay (MidiService_new config n p out t) = atoi v"
    by (simp add: MidiService_new_def)
  show "- (2 ^ 31) \<le> midiDelay (MidiService_new config n p out t)"
    and "midiDelay (MidiService_new config n p out t) < 2 ^ 31"
    unfolding is_atoi using atoi_range [of v] by simp_all
next
  assume "config ''MIDIDELAY'' = Some v"
    and "- (2 ^ 31) \<le> decimal_value v" and "decimal_value v < 2 ^ 31"
  then show "midiDelay (MidiService_new config n p out t) = decimal_value v"
    by (simp add: MidiService_new_def atoi_exact)
next
  assume "config ''MIDIDELAY'' = Some v" and "filter isdigit v = []"
  then show "midiDelay (MidiService_new config n p out t) = 0"
    by (simp add: MidiService_new_def atoi_no_digit)
qed

theorem delay_is_atoi_of_value_witness:
  "badDelayConfig ''MIDIDELAY'' = Some ''abc'' \<and> filter isdigit ''abc'' = [] \<and>
   - (2 ^ 31) \<le> decimal_value ''abc'' \<and> decimal_value ''abc'' < 2 ^ 31 \<and>
   midiDelay (MidiService_new badDelayConfig 4 0 0 0) = 0 \<and>
   midiDelay (MidiService_new badDelayConfig 4 0 0 0) = decimal_value ''abc'' \<and>
   noDelayConfig ''MIDIDELAY'' = None \<and>
   midiDelay (MidiService_new noDelayConfig 4 0 0 0) = 1"
proof -
  have v: "badDelayConfig ''MIDIDELAY'' = Some ''abc''" by (simp add: badDelayConfig_def)
  have nd: "filter isdigit ''abc'' = []" by (simp add: isdigit_def)
  have dv: "decimal_value ''abc'' = 0" using nd by (rule decimal_value_no_digit)
  have lo: "- (2 ^ 31) \<le> decimal_value ''abc''" and hi: "decimal_value ''abc'' < 2 ^ 31"
    by (simp_all add: dv)
  have no: "noDelayConfig ''MIDIDELAY'' = None" by (simp add: noDelayConfig_def)
  note bad = delay_is_atoi_of_value [where config = badDelayConfig and v = "''abc''"
      and n = 4 and p = 0 and out = 0 and t = 0]
  from bad v nd
  have a: "midiDelay (MidiService_new badDelayConfig 4 0 0 0) = 0" by blast
  from bad v lo hi
  have a': "midiDelay (MidiService_new badDelayConfig 4 0 0 0) = decimal_value ''abc''" by blast
  from delay_is_atoi_of_value [where config = noDelayConfig and v = "''abc''"
      and n = 4 and p = 0 and out = 0 and t = 0] no
  have b: "midiDelay (MidiService_new noDelayConfig 4 0 0 0) = 1" by blast
  from v nd lo hi a a' no b show ?thesis by blast
qed

text \<open>
  The claim as the specification states it fails on the code: with the value
  \<open>abc\<close> the configured delay is 0, not the default 1.
\<close>

theorem malformed_delay_counterexample:
  "midiDelay (MidiService_new badDelayConfig 4 0 0 0) = 0 \<and>
   midiDelay (MidiService_new badDelayConfig 4 0 0 0) \<noteq> 1"
  by (simp add: MidiService_new_def badDelayConfig_def atoi_def strtol_def int_of_long_def
      decimal_value_def isspace_def digits_def isdigit_def)

section \<open>Restart\<close>

lemma startOutLoop_ring [simp]:
  "queues (startOutLoop i ds s) = queues s"
  "currentPlayQueue (startOutLoop i ds s) = currentPlayQueue s"
  "currentOutQueue (startOutLoop i ds s) = currentOutQueue s"
  by (induction i ds s rule: startOutLoop.induct) (simp_all add: Let_def)

lemma startOutDevice_ring [simp]:
  "queues (startOutDevice s) = queues s"
  "currentPlayQueue (startOutDevice s) = currentPlayQueue s"
  "currentOutQueue (startOutDevice s) = currentOutQueue s"
  by (simp_all add: startOutDevice_def)

lemma stopOutDevice_ring [simp]:
  "queues (stopOutDevice s) = queues s"
  "currentPlayQueue (stopOutDevice s) = currentPlayQueue s"
  "currentOutQueue (stopOutDevice s) = currentOutQueue s"
  by (simp_all add: stopOutDevice_def split: option.splits)

lemma OnPlayerStart_slot1:
  assumes "currentPlayQueue s = 0"
  shows "queues (OnPlayerStart msg s) ! 1 = queues s ! 1"
    and "length (queues (OnPlayerStart msg s)) = length (queues s)"
    and "currentOutQueue (OnPlayerStart msg s) = currentOutQueue s"
  using assms by (simp_all add: OnPlayerStart_def QueueMessage_def Let_def split: option.splits)

text \<open>
  C10. \<open>Start\<close> sets both cursors to 0 and nothing else; neither \<open>Start\<close> nor \<open>Stop\<close>
  touches a slot. So what slot 1 held before a \<open>Stop\<close>, \<open>Start\<close> is still there, and
  once \<open>OnPlayerStart\<close> has bound an output device \<open>d\<close> again, the first drain hands
  exactly that old content to \<open>d\<close>.
\<close>

theorem Start_resets_cursors_only:
  "Start s = s\<lparr>currentPlayQueue := 0, currentOutQueue := 0\<rparr> \<and>
   queues (Start s) = queues s \<and>
   queues (Start (Stop s)) = queues s \<and>
   (1 < length (queues s) \<longrightarrow> outDevice (OnPlayerStart msg (Start (Stop s))) = Some d \<longrightarrow>
      calls (flushOutQueue (OnPlayerStart msg (Start (Stop s)))) =
        calls (OnPlayerStart msg (Start (Stop s))) @ [SendQueue d (queues s ! 1)])"
proof (intro conjI impI)
  show "Start s = s\<lparr>currentPlayQueue := 0, currentOutQueue := 0\<rparr>" by (simp add: Start_def)
  show "queues (Start s) = queues s" by (simp add: Start_def)
  show "queues (Start (Stop s)) = queues s" by (simp add: Start_def Stop_def)
next
  let ?u = "Start (Stop s)"
  let ?t = "OnPlayerStart msg ?u"
  assume len: "1 < length (queues s)" and dev: "outDevice ?t = Some d"
  have p: "currentPlayQueue ?u = 0" and o: "currentOutQueue ?u = 0" and q: "queues ?u = queues s"
    by (simp_all add: Start_def Stop_def)
  have "queues ?t ! 1 = queues s ! 1" "length (queues ?t) = length (queues s)"
      "currentOutQueue ?t = 0"
    using OnPlayerStart_slot1 [OF p, of msg] q o by simp_all
  with len dev show "calls (flushOutQueue ?t) = calls ?t @ [SendQueue d (queues s ! 1)]"
    by (simp add: flushOutQueue_def MIDI_MAX_BUFFERS_def Let_def)
qed

theorem Start_resets_cursors_only_witness:
  "1 < length (queues stale4) \<and>
   outDevice (OnPlayerStart noteB (Start (Stop stale4))) = Some 0 \<and>
   queues stale4 ! 1 = [noteA] \<and>
   calls (flushOutQueue (OnPlayerStart noteB (Start (Stop stale4)))) =
     calls (OnPlayerStart noteB (Start (Stop stale4))) @ [SendQueue 0 [noteA]]"
proof -
  have len: "1 < length (queues stale4)" and q1: "queues stale4 ! 1 = [noteA]"
    by (simp_all add: stale4_def)
  have dev: "outDevice (OnPlayerStart noteB (Start (Stop stale4))) = Some 0"
    by (simp add: stale4_def ring4_def port_def OnPlayerStart_def Start_def Stop_def
        stopOutDevice_def startOutDevice_def Let_def)
  from Start_resets_cursors_only [of stale4 noteB 0] len dev q1 show ?thesis by simp
qed

section \<open>Selecting the input device\<close>

lemma selectStep_frame [simp]:
  "inList (selectStep i dev s) = inList s"
  "deviceName (selectStep i dev s) = deviceName s"
  by (simp_all add: selectStep_def Let_def)

lemma selectStep_inDevice:
  "inDevice (selectStep i dev s) = inDevice s \<or>
   (inDevice (selectStep i dev s) = Some i \<and> GetName dev = deviceName s)"
  by (simp add: selectStep_def Let_def)

lemma selectStep_binds:
  "deviceName s = GetName dev \<Longrightarrow> InitResult dev \<Longrightarrow> inDevice (selectStep i dev s) = Some i"
  by (simp add: selectStep_def Let_def)

lemma selectStep_keeps_bound: "inDevice s \<noteq> None \<Longrightarrow> inDevice (selectStep i dev s) \<noteq> None"
  by (simp add: selectStep_def Let_def)

lemma selectStep_init_fails:
  "\<not> (deviceName s = GetName dev \<and> InitResult dev) \<Longrightarrow>
   filter stop_start_close (calls (selectStep i dev s)) = filter stop_start_close (calls s) \<and>
   inDevice (selectStep i dev s) = inDevice s"
  by (simp add: selectStep_def Let_def)

lemma selectLoop_frame [simp]:
  "inList (selectLoop i ds s) = inList s"
  "deviceName (selectLoop i ds s) = deviceName s"
  by (induction ds arbitrary: i s) simp_all

lemma selectLoop_inDevice:
  "inDevice (selectLoop i ds s) = Some k \<Longrightarrow>
   inDevice s = Some k \<or> (i \<le> k \<and> k < i + length ds \<and> GetName (ds ! (k - i)) = deviceName s)"
proof (induction ds arbitrary: i s)
  case Nil
  then show ?case by simp
next
  case (Cons dev rest)
  from Cons.prems have "inDevice (selectLoop (Suc i) rest (selectStep i dev s)) = Some k" by simp
  from Cons.IH [OF this]
  consider "inDevice (selectStep i dev s) = Some k"
    | "Suc i \<le> k" "k < Suc i + length rest" "GetName (rest ! (k - Suc i)) = deviceName s"
    by auto
  then show ?case
  proof cases
    case 1
    with selectStep_inDevice [of i dev s] show ?thesis by auto
  next
    case 2
    from 2(1) obtain m where m: "k - i = Suc m" "k - Suc i = m"
      by (metis Suc_diff_le diff_Suc_Suc)
    with 2 show ?thesis by simp
  qed
qed

lemma SelectDevice_frame [simp]:
  "inList (SelectDevice name s) = inList s"
  "deviceName (SelectDevice name s) = name"
  by (simp_all add: SelectDevice_def Let_def split: option.splits)

lemma SelectDevice_bound_name:
  assumes "inDevice (SelectDevice name s) = Some k"
  shows "GetName (inList s ! k) = name"
proof (cases "inDevice s")
  case None
  with assms have "inDevice (selectLoop 0 (inList s) (s\<lparr>deviceName := name\<rparr>)) = Some k"
    by (simp add: SelectDevice_def Let_def split: if_splits)
  from selectLoop_inDevice [OF this] None show ?thesis by simp
next
  case (Some i)
  show ?thesis
  proof (cases "name = GetName (inList s ! i)")
    case True
    with Some assms show ?thesis by (simp add: SelectDevice_def Let_def)
  next
    case False
    with Some assms have "inDevice (selectLoop 0 (inList s)
        (s\<lparr>deviceName := name, calls := calls s @ [InStop i, InClose i], inDevice := None\<rparr>)) = Some k"
      by (simp add: SelectDevice_def Let_def split: if_splits)
    from selectLoop_inDevice [OF this] show ?thesis by simp
  qed
qed

lemma SelectDevice_again_bound:
  assumes "inDevice (SelectDevice name s) = Some k"
  shows "SelectDevice name (SelectDevice name s) = SelectDevice name s"
proof -
  let ?s1 = "SelectDevice name s"
  have nm: "GetName (inList ?s1 ! k) = name" using SelectDevice_bound_name [OF assms] by simp
  have dn: "deviceName ?s1 = name" by simp
  have "?s1\<lparr>deviceName := name\<rparr> = ?s1" using dn by simp
  then show ?thesis using assms nm
    by (subst SelectDevice_def) (simp add: Let_def)
qed

lemma selectLoop_keeps_bound:
  "inDevice s \<noteq> None \<Longrightarrow> inDevice (selectLoop i ds s) \<noteq> None"
proof (induction ds arbitrary: i s)
  case Nil
  then show ?case by simp
next
  case (Cons dev rest)
  from Cons.prems have "inDevice (selectStep i dev s) \<noteq> None"
    by (rule selectStep_keeps_bound)
  from Cons.IH [OF this] show ?case by simp
qed

lemma selectLoop_unbound:
  "inDevice (selectLoop i ds s) = None \<Longrightarrow>
   \<forall>dev\<in>set ds. GetName dev = deviceName s \<longrightarrow> \<not> InitResult dev"
proof (induction ds arbitrary: i s)
  case Nil
  then show ?case by simp
next
  case (Cons dev rest)
  show ?case
  proof (cases "deviceName s = GetName dev \<and> InitResult dev")
    case True
    then have "inDevice (selectStep i dev s) \<noteq> None" by (simp add: selectStep_binds)
    then have "inDevice (selectLoop i (dev # rest) s) \<noteq> None"
      by (simp add: selectLoop_keeps_bound)
    with Cons.prems show ?thesis by simp
  next
    case False
    from Cons.prems have "inDevice (selectLoop (Suc i) rest (selectStep i dev s)) = None" by simp
    from Cons.IH [OF this] False show ?thesis by auto
  qed
qed

lemma selectLoop_init_fails:
  "\<forall>dev\<in>set ds. GetName dev = deviceName s \<longrightarrow> \<not> InitResult dev \<Longrightarrow>
   filter stop_start_close (calls (selectLoop i ds s)) = filter stop_start_close (calls s) \<and>
   inDevice (selectLoop i ds s) = inDevice s"
proof (induction ds arbitrary: i s)
  case Nil
  show ?case by simp
next
  case (Cons dev rest)
  from Cons.prems have here: "\<not> (deviceName s = GetName dev \<and> InitResult dev)" by auto
  from Cons.prems
  have "\<forall>d\<in>set rest. GetName d = deviceName (selectStep i dev s) \<longrightarrow> \<not> InitResult d" by simp
  from Cons.IH [OF this, of "Suc i"] selectStep_init_fails [OF here, of i]
  show ?case by simp
qed

lemma SelectDevice_again_unbound:
  assumes "inDevice (SelectDevice name s) = None"
  shows "filter stop_start_close (calls (SelectDevice name (SelectDevice name s))) =
         filter stop_start_close (calls (SelectDevice name s))"
proof -
  let ?s1 = "SelectDevice name s"
  obtain s0 where loop: "inDevice (selectLoop 0 (inList s) s0) = None" and dn0: "deviceName s0 = name"
    using assms by (auto simp: SelectDevice_def Let_def split: option.splits if_splits)
  from selectLoop_unbound [OF loop] dn0
  have fails: "\<forall>dev\<in>set (inList ?s1). GetName dev = deviceName ?s1 \<longrightarrow> \<not> InitResult dev"
    by simp
  have same: "?s1\<lparr>deviceName := name\<rparr> = ?s1" by simp
  have "SelectDevice name ?s1 =
      (let s2 = selectLoop 0 (inList ?s1) (?s1\<lparr>deviceName := name\<rparr>)
       in if inDevice s2 = None
          then s2\<lparr>calls := calls s2 @
                 [TraceLog ''MIDI'' (''MIDI interface '' @ deviceName s2 @ '' not found'')]\<rparr>
          else s2)"
    using assms by (subst SelectDevice_def) (simp add: Let_def)
  then show ?thesis unfolding same using selectLoop_init_fails [OF fails, of 0]
    by (simp add: Let_def)
qed

lemma selectStep_exact:
  "selectStep i dev s =
     (if deviceName s = GetName dev
      then s\<lparr>calls := calls s @ open_calls (i, dev),
             inDevice := (if InitResult dev then Some i else inDevice s)\<rparr>
      else s)"
  by (simp add: selectStep_def open_calls_def Let_def)

lemma bound_of_Nil [simp]: "bound_of [] b = b"
  by (simp add: bound_of_def)

lemma bound_of_Cons:
  "bound_of (c # cs) b = bound_of cs (if InitResult (snd c) then Some (fst c) else b)"
  by (simp add: bound_of_def split: list.splits)

lemma selectLoop_exact:
  "selectLoop i devs s =
     s\<lparr>calls := calls s @ concat (map open_calls (candidates i (deviceName s) devs)),
       inDevice := bound_of (candidates i (deviceName s) devs) (inDevice s)\<rparr>"
proof (induction devs arbitrary: i s)
  case Nil
  show ?case by simp
next
  case (Cons dev rest)
  show ?case
  proof (cases "deviceName s = GetName dev")
    case True
    then show ?thesis
      by (simp add: Cons.IH selectStep_exact bound_of_Cons)
  next
    case False
    then have "GetName dev \<noteq> deviceName s" by auto
    with False show ?thesis
      by (simp add: Cons.IH selectStep_exact)
  qed
qed

lemma bound_of_None_iff:
  "bound_of cs None = None \<longleftrightarrow> filter (\<lambda>c. InitResult (snd c)) cs = []"
  by (simp add: bound_of_def split: list.splits)

lemma SelectDevice_unbound_exact:
  assumes "inDevice s = None"
  shows "SelectDevice name s =
           s\<lparr>deviceName := name,
             calls := calls s @ search_calls name (inList s) @
                      not_found name (search_bound name (inList s)),
             inDevice := search_bound name (inList s)\<rparr>"
  using assms
  by (cases "search_bound name (inList s)")
     (simp_all add: SelectDevice_def Let_def selectLoop_exact search_calls_def search_bound_def
        not_found_def)

lemma SelectDevice_other_exact:
  assumes "inDevice s = Some i" and "name \<noteq> GetName (inList s ! i)"
  shows "SelectDevice name s =
           s\<lparr>deviceName := name,
             calls := calls s @ [InStop i, InClose i] @ search_calls name (inList s) @
                      not_found name (search_bound name (inList s)),
             inDevice := search_bound name (inList s)\<rparr>"
  using assms
  by (cases "search_bound name (inList s)")
     (simp_all add: SelectDevice_def Let_def selectLoop_exact search_calls_def search_bound_def
        not_found_def)

lemma SelectDevice_same_exact:
  assumes "inDevice s = Some i" and "name = GetName (inList s ! i)"
  shows "SelectDevice name s = s\<lparr>deviceName := name\<rparr>"
  using assms by (simp add: SelectDevice_def Let_def)

lemma candidates_position:
  "(k, dev) \<in> set (candidates i name devs) \<Longrightarrow>
   i \<le> k \<and> k < i + length devs \<and> dev = devs ! (k - i) \<and> GetName dev = name"
proof (induction devs arbitrary: i)
  case Nil
  then show ?case by simp
next
  case (Cons d rest)
  from Cons.prems consider "k = i" "dev = d" "GetName d = name"
    | "(k, dev) \<in> set (candidates (Suc i) name rest)"
    by (auto split: if_splits)
  then show ?case
  proof cases
    case 1
    then show ?thesis by simp
  next
    case 2
    from Cons.IH [OF this] have *: "Suc i \<le> k" "k < Suc i + length rest"
      "dev = rest ! (k - Suc i)" "GetName dev = name" by blast+
    from *(1) obtain m where m: "k - i = Suc m" "k - Suc i = m"
      by (metis Suc_diff_le diff_Suc_Suc)
    with * show ?thesis by simp
  qed
qed

lemma in_state_append:
  "foldl (lifecycle_step dev k) st (xs @ ys) =
   foldl (lifecycle_step dev k) (foldl (lifecycle_step dev k) st xs) ys"
  by simp

lemma SelectDevice_other_started:
  assumes b: "inDevice s = Some i" and ne: "name \<noteq> GetName (inList s ! i)"
    and one: "candidates 0 name (inList s) = [(k, dev)]"
    and ok: "InitResult dev" "StartResult dev"
  shows "calls (SelectDevice name s) =
           calls s @ [InStop i, InClose i, InInit k, InStart k,
             TraceLog ''MIDI'' (''Controlling activated for MIDI interface '' @ name)]"
    and "inDevice (SelectDevice name s) = Some k"
    and "in_state (SelectDevice name s) k = Running"
    and "in_state (SelectDevice name s) i = Closed"
proof -
  have "(k, dev) \<in> set (candidates 0 name (inList s))" by (simp add: one)
  from candidates_position [OF this]
  have dev: "dev = inList s ! k" and nm: "GetName dev = name" by auto
  from dev nm ne have ki: "k \<noteq> i" by auto
  have sb: "search_bound name (inList s) = Some k"
    by (simp add: search_bound_def one bound_of_def ok)
  have sc: "search_calls name (inList s) =
      [InInit k, InStart k,
       TraceLog ''MIDI'' (''Controlling activated for MIDI interface '' @ name)]"
    by (simp add: search_calls_def one open_calls_def ok nm)
  note ex = SelectDevice_other_exact [OF b ne]
  show c: "calls (SelectDevice name s) =
           calls s @ [InStop i, InClose i, InInit k, InStart k,
             TraceLog ''MIDI'' (''Controlling activated for MIDI interface '' @ name)]"
    by (simp add: ex sb sc not_found_def)
  show "inDevice (SelectDevice name s) = Some k" by (simp add: ex sb)
  have il: "inList (SelectDevice name s) = inList s" by (simp add: ex)
  show "in_state (SelectDevice name s) k = Running"
    using ki ok by (simp add: in_state_def c il dev [symmetric])
  show "in_state (SelectDevice name s) i = Closed"
    using ki by (simp add: in_state_def c il)
qed

text \<open>
  C8. When the requested name is the name of the bound input device, \<open>SelectDevice\<close>
  only records the name. So a second \<open>SelectDevice\<close> with the same name makes no
  \<open>Stop\<close>, \<open>Start\<close> or \<open>Close\<close> call on any input device, and when the first call left a
  device bound the second changes nothing at all: a device that is running stays
  bound and running. When the name differs from the name of the bound device \<open>i\<close>,
  the calls are \<open>Stop\<close> and \<open>Close\<close> on \<open>i\<close> first and then the search: \<open>Init\<close> on every
  registry device of that name, \<open>Start\<close> after a successful \<open>Init\<close>, \<open>Close\<close> after a
  failed \<open>Start\<close>, and the last device that opened is left bound. With one device \<open>j\<close>
  of the new name, which opens and starts, the trace grows by exactly
  \<open>Stop i\<close>, \<open>Close i\<close>, \<open>Init j\<close>, \<open>Start j\<close> and the report; then \<open>j\<close> is bound and running
  and \<open>i\<close> is closed. With no device bound before, the same search runs with no
  \<open>Stop\<close> and no \<open>Close\<close>.
\<close>

theorem SelectDevice_same_name_twice:
  "(inDevice s = Some i \<longrightarrow> name = GetName (inList s ! i) \<longrightarrow>
      SelectDevice name s = s\<lparr>deviceName := name\<rparr>) \<and>
   filter stop_start_close (calls (SelectDevice name (SelectDevice name s))) =
     filter stop_start_close (calls (SelectDevice name s)) \<and>
   (inDevice (SelectDevice name s) = Some k \<longrightarrow>
      SelectDevice name (SelectDevice name s) = SelectDevice name s) \<and>
   (inDevice (SelectDevice name s) = Some k \<longrightarrow> in_state (SelectDevice name s) k = Running \<longrightarrow>
      inDevice (SelectDevice name (SelectDevice name s)) = Some k \<and>
      in_state (SelectDevice name (SelectDevice name s)) k = Running) \<and>
   (inDevice s = Some i \<longrightarrow> name \<noteq> GetName (inList s ! i) \<longrightarrow>
      SelectDevice name s =
        s\<lparr>deviceName := name,
          calls := calls s @ [InStop i, InClose i] @ search_calls name (inList s) @
                   not_found name (search_bound name (inList s)),
          inDevice := search_bound name (inList s)\<rparr>) \<and>
   (inDevice s = Some i \<longrightarrow> name \<noteq> GetName (inList s ! i) \<longrightarrow>
    candidates 0 name (inList s) = [(j, dev)] \<longrightarrow> InitResult dev \<longrightarrow> StartResult dev \<longrightarrow>
      calls (SelectDevice name s) =
        calls s @ [InStop i, InClose i, InInit j, InStart j,
          TraceLog ''MIDI'' (''Controlling activated for MIDI interface '' @ name)] \<and>
      inDevice (SelectDevice name s) = Some j \<and>
      in_state (SelectDevice name s) j = Running \<and>
      in_state (SelectDevice name s) i = Closed) \<and>
   (inDevice s = None \<longrightarrow>
      SelectDevice name s =
        s\<lparr>deviceName := name,
          calls := calls s @ search_calls name (inList s) @
                   not_found name (search_bound name (inList s)),
          inDevice := search_bound name (inList s)\<rparr>)"
proof (intro conjI impI)
  assume "inDevice s = Some i" and "name = GetName (inList s ! i)"
  then show "SelectDevice name s = s\<lparr>deviceName := name\<rparr>"
    by (rule SelectDevice_same_exact)
next
  show "filter stop_start_close (calls (SelectDevice name (SelectDevice name s))) =
     filter stop_start_close (calls (SelectDevice name s))"
  proof (cases "inDevice (SelectDevice name s)")
    case None
    then show ?thesis by (rule SelectDevice_again_unbound)
  next
    case (Some j)
    then show ?thesis by (simp add: SelectDevice_again_bound)
  qed
next
  assume "inDevice (SelectDevice name s) = Some k"
  then show "SelectDevice name (SelectDevice name s) = SelectDevice name s"
    by (rule SelectDevice_again_bound)
next
  assume b: "inDevice (SelectDevice name s) = Some k"
    and r: "in_state (SelectDevice name s) k = Running"
  have same: "SelectDevice name (SelectDevice name s) = SelectDevice name s"
    using b by (rule SelectDevice_again_bound)
  show "inDevice (SelectDevice name (SelectDevice name s)) = Some k"
    and "in_state (SelectDevice name (SelectDevice name s)) k = Running"
    unfolding same using b r .
next
  assume "inDevice s = Some i" and "name \<noteq> GetName (inList s ! i)"
  then show "SelectDevice name s =
        s\<lparr>deviceName := name,
          calls := calls s @ [InStop i, InClose i] @ search_calls name (inList s) @
                   not_found name (search_bound name (inList s)),
          inDevice := search_bound name (inList s)\<rparr>"
    by (rule SelectDevice_other_exact)
next
  assume "inDevice s = Some i" and "name \<noteq> GetName (inList s ! i)"
    and "candidates 0 name (inList s) = [(j, dev)]" and "InitResult dev" and "StartResult dev"
  then show "calls (SelectDevice name s) =
        calls s @ [InStop i, InClose i, InInit j, InStart j,
          TraceLog ''MIDI'' (''Controlling activated for MIDI interface '' @ name)]"
    and "inDevice (SelectDevice name s) = Some j"
    and "in_state (SelectDevice name s) j = Running"
    and "in_state (SelectDevice name s) i = Closed"
    by (rule SelectDevice_other_started)+
next
  assume "inDevice s = None"
  then show "SelectDevice name s =
        s\<lparr>deviceName := name,
          calls := calls s @ search_calls name (inList s) @
                   not_found name (search_bound name (inList s)),
          inDevice := search_bound name (inList s)\<rparr>"
    by (rule SelectDevice_unbound_exact)
qed

lemma hallKeys_value:
  "hallKeys = hall\<lparr>inDevice := Some 1, deviceName := ''keys'',
     calls := [InInit 1, InStart 1,
               TraceLog ''MIDI'' ''Controlling activated for MIDI interface keys'']\<rparr>"
  by (simp add: hallKeys_def SelectDevice_def selectStep_def hall_def Init_def ring4_def
      pad_def keys_def organ_def Let_def)

lemma hallKeys_facts:
  "inDevice hall = None"
  "inDevice hallKeys = Some 1"
  "inList hallKeys = [pad, keys, organ]"
  "in_state hallKeys 1 = Running"
  "candidates 0 ''organ'' (inList hallKeys) = [(2, organ)]"
  "InitResult organ" "StartResult organ"
  "''keys'' = GetName (inList hallKeys ! 1)"
  "''organ'' \<noteq> GetName (inList hallKeys ! 1)"
  by (simp_all add: hallKeys_value in_state_def hall_def Init_def ring4_def
      pad_def keys_def organ_def)

theorem SelectDevice_same_name_twice_witness:
  "inDevice hallKeys = Some 1 \<and> ''keys'' = GetName (inList hallKeys ! 1) \<and>
   SelectDevice ''keys'' hallKeys = hallKeys\<lparr>deviceName := ''keys''\<rparr> \<and>
   inDevice (SelectDevice ''keys'' hall) = Some 1 \<and>
   in_state (SelectDevice ''keys'' hall) 1 = Running \<and>
   SelectDevice ''keys'' (SelectDevice ''keys'' hall) = SelectDevice ''keys'' hall \<and>
   in_state (SelectDevice ''keys'' (SelectDevice ''keys'' hall)) 1 = Running \<and>
   ''organ'' \<noteq> GetName (inList hallKeys ! 1) \<and>
   candidates 0 ''organ'' (inList hallKeys) = [(2, organ)] \<and>
   InitResult organ \<and> StartResult organ \<and>
   calls (SelectDevice ''organ'' hallKeys) =
     calls hallKeys @ [InStop 1, InClose 1, InInit 2, InStart 2,
       TraceLog ''MIDI'' (''Controlling activated for MIDI interface '' @ ''organ'')] \<and>
   inDevice (SelectDevice ''organ'' hallKeys) = Some 2 \<and>
   in_state (SelectDevice ''organ'' hallKeys) 2 = Running \<and>
   in_state (SelectDevice ''organ'' hallKeys) 1 = Closed \<and>
   inDevice hall = None \<and>
   SelectDevice ''keys'' hall =
     hall\<lparr>deviceName := ''keys'',
       calls := calls hall @ search_calls ''keys'' (inList hall) @
                not_found ''keys'' (search_bound ''keys'' (inList hall)),
       inDevice := search_bound ''keys'' (inList hall)\<rparr>"
proof -
  note f = hallKeys_facts
  have b: "inDevice (SelectDevice ''keys'' hall) = Some 1"
    and r: "in_state (SelectDevice ''keys'' hall) 1 = Running"
    using f(2,4) by (simp_all only: hallKeys_def)
  note again = SelectDevice_same_name_twice
    [where name = "''keys''" and s = hallKeys and i = 1 and k = 1 and j = 2 and dev = organ]
  note first = SelectDevice_same_name_twice
    [where name = "''keys''" and s = hall and i = 1 and k = 1 and j = 2 and dev = organ]
  note other = SelectDevice_same_name_twice
    [where name = "''organ''" and s = hallKeys and i = 1 and k = 1 and j = 2 and dev = organ]
  from again f(2,8)
  have c1: "SelectDevice ''keys'' hallKeys = hallKeys\<lparr>deviceName := ''keys''\<rparr>" by blast
  from first b
  have c2: "SelectDevice ''keys'' (SelectDevice ''keys'' hall) = SelectDevice ''keys'' hall"
    by blast
  from first b r
  have c3: "in_state (SelectDevice ''keys'' (SelectDevice ''keys'' hall)) 1 = Running" by blast
  from other f(2,9,5,6,7)
  have c4: "calls (SelectDevice ''organ'' hallKeys) =
     calls hallKeys @ [InStop 1, InClose 1, InInit 2, InStart 2,
       TraceLog ''MIDI'' (''Controlling activated for MIDI interface '' @ ''organ'')]"
    and c5: "inDevice (SelectDevice ''organ'' hallKeys) = Some 2"
    and c6: "in_state (SelectDevice ''organ'' hallKeys) 2 = Running"
    and c7: "in_state (SelectDevice ''organ'' hallKeys) 1 = Closed"
    by blast+
  from first f(1)
  have c8: "SelectDevice ''keys'' hall =
     hall\<lparr>deviceName := ''keys'',
       calls := calls hall @ search_calls ''keys'' (inList hall) @
                not_found ''keys'' (search_bound ''keys'' (inList hall)),
       inDevice := search_bound ''keys'' (inList hall)\<rparr>"
    by blast
  from f b r c1 c2 c3 c4 c5 c6 c7 c8 show ?thesis by blast
qed

text \<open>
  C4 on the code. Selecting \<open>pad\<close>, whose \<open>Init\<close> succeeds and whose \<open>Start\<close> fails,
  closes the device again but leaves \<open>inDevice\<close> pointing at it: the failure branch
  lacks the \<open>inDevice_ = NULL\<close> that the release branch of the same function has.
  A second selection of \<open>pad\<close> is then skipped as redundant.
\<close>

theorem start_failure_keeps_device_bound:
  "inDevice (SelectDevice ''pad'' studio) = Some 0 \<and>
   calls (SelectDevice ''pad'' studio) =
     [InInit 0, InStart 0,
      TraceLog ''MIDI'' ''Failed to start input for MIDI interface pad'', InClose 0] \<and>
   SelectDevice ''pad'' (SelectDevice ''pad'' studio) = SelectDevice ''pad'' studio"
  by (simp add: SelectDevice_def selectStep_def studio_def Init_def ring4_def pad_def keys_def
      Let_def)

section \<open>The ring when no flush is pre-empted\<close>

lemma run_append: "run (xs @ ys) s = run ys (run xs s)"
  by (induction xs arbitrary: s) simp_all

lemma run_ticks: "run (replicate k OnTick) s = ticks k s"
  by (induction k arbitrary: s) simp_all

lemma no_overwrite_append:
  "AdvanceWrite \<notin> set es \<Longrightarrow> no_overwrite (es @ fs) s = no_overwrite fs (run es s)"
proof (induction es arbitrary: s)
  case Nil
  show ?case by simp
next
  case (Cons e es)
  then show ?case by (cases e) simp_all
qed

lemma ticks_ge_delay:
  assumes "0 \<le> midiDelay u" and "midiDelay u \<le> int k"
  shows "ticks k (Flush u) = flushOutQueue (u\<lparr>tickToFlush := 0\<rparr>)"
proof (cases "midiDelay u = 0")
  case True
  then show ?thesis by (simp add: Flush_immediate ticks_idle)
next
  case False
  with assms have pos: "0 < midiDelay u" by simp
  from assms(2) obtain i where k: "k = nat (midiDelay u) + i"
    by (metis le_add_diff_inverse nat_le_iff)
  have "ticks (nat (midiDelay u)) (u\<lparr>tickToFlush := midiDelay u\<rparr>) =
          flushOutQueue (u\<lparr>tickToFlush := 0\<rparr>)"
    using ticks_firing [OF pos, of "u\<lparr>tickToFlush := midiDelay u\<rparr>"] by simp
  with pos have "ticks (nat (midiDelay u)) (Flush u) = flushOutQueue (u\<lparr>tickToFlush := 0\<rparr>)"
    by (simp add: Flush_armed)
  then show ?thesis unfolding k by (simp add: ticks_add ticks_idle)
qed

lemma step_batch_simps [simp]:
  "step_batch [] = []"
  "step_batch (None # body) = step_batch body"
  "step_batch (Some m # body) = m # step_batch body"
  by (simp_all add: step_batch_def List.map_filter_simps)

lemma MidiMessage_copy: "\<lparr>status = status m, data1 = data1 m, data2 = data2 m\<rparr> = (m::MidiMessage)"
  by (cases m) simp

lemma run_body:
  assumes "tickToFlush u \<le> 0" and "currentPlayQueue u < length (queues u)"
  shows "run (map (case_option OnTick Enqueue) body) u =
           (case outDevice u of
              None \<Rightarrow> u
            | Some d \<Rightarrow>
                u\<lparr>queues := (queues u)
                     [currentPlayQueue u := queues u ! currentPlayQueue u @ step_batch body]\<rparr>)"
  using assms
proof (induction body arbitrary: u)
  case Nil
  show ?case by (simp split: option.splits)
next
  case (Cons x body)
  show ?case
  proof (cases x)
    case None
    show ?thesis unfolding None using Cons by (simp add: onAudioTick_idle split: option.splits)
  next
    case (Some m)
    show ?thesis
    proof (cases "outDevice u")
      case None
      have "QueueMessage m u = u" using None by (simp add: QueueMessage_def)
      with Cons Some None show ?thesis by simp
    next
      case (Some d)
      let ?u' = "QueueMessage m u"
      have u': "?u' = u\<lparr>queues := (queues u)
                     [currentPlayQueue u := queues u ! currentPlayQueue u @ [m]]\<rparr>"
        using Some by (simp add: QueueMessage_def MidiMessage_copy)
      have "tickToFlush ?u' \<le> 0" "currentPlayQueue ?u' < length (queues ?u')"
        using Cons.prems by (simp_all add: u')
      from Cons.IH [OF this] Some \<open>x = Some m\<close> Cons.prems show ?thesis
        by (simp add: u')
    qed
  qed
qed

lemma exec_frame [simp]:
  "midiDelay (exec e s) = midiDelay s"
  "outDevice (exec e s) = outDevice s"
  "length (queues (exec e s)) = length (queues s)"
  by (cases e; simp add: ring_defs Let_def split: option.splits)+

lemma run_frame [simp]:
  "midiDelay (run es s) = midiDelay s"
  "outDevice (run es s) = outDevice s"
  "length (queues (run es s)) = length (queues s)"
  by (induction es arbitrary: s) simp_all

lemma ring_idle_queues: "ring_idle s \<Longrightarrow> queues s = replicate (length (queues s)) []"
  by (simp add: ring_idle_def list_all_iff replicate_length_same)

lemma next_slot_differs: "2 \<le> (n::nat) \<Longrightarrow> p < n \<Longrightarrow> Suc p mod n \<noteq> p"
  by (cases "Suc p < n") (auto simp: mod_Suc)

text \<open>Advancing the write cursor\<close>

lemma advance_idle:
  assumes "ring_idle s"
  shows "queues s ! ((currentPlayQueue s + 1) mod MIDI_MAX_BUFFERS s) = []"
    and "in_step (AdvancePlayQueue s) []"
    and "calls (AdvancePlayQueue s) = calls s"
proof -
  let ?N = "length (queues s)"
  let ?p = "Suc (currentPlayQueue s) mod ?N"
  from assms have N: "0 < ?N" and po: "currentPlayQueue s = currentOutQueue s"
    and t: "tickToFlush s \<le> 0" by (simp_all add: ring_idle_def)
  have q: "queues s = replicate ?N []" using assms by (rule ring_idle_queues)
  from N have p: "?p < ?N" by simp
  show "queues s ! ((currentPlayQueue s + 1) mod MIDI_MAX_BUFFERS s) = []"
    using p by (subst q) (simp add: MIDI_MAX_BUFFERS_def)
  have "(queues s)[?p := []] = (replicate ?N [])[?p := []]" by (subst q) simp
  then show "in_step (AdvancePlayQueue s) []"
    using N t po by (simp add: in_step_def AdvancePlayQueue_def MIDI_MAX_BUFFERS_def Let_def)
  show "calls (AdvancePlayQueue s) = calls s"
    by (simp add: AdvancePlayQueue_def Let_def)
qed

lemma advance_awaiting:
  assumes "awaiting s pb"
  shows "queues s ! ((currentPlayQueue s + 1) mod MIDI_MAX_BUFFERS s) = []"
    and "in_step_awaiting (AdvancePlayQueue s) pb []"
    and "calls (AdvancePlayQueue s) = calls s"
    and "tickToFlush (AdvancePlayQueue s) = tickToFlush s"
proof -
  let ?N = "length (queues s)"
  let ?q = "currentPlayQueue s"
  let ?p = "Suc ?q mod ?N"
  from assms have N: "2 \<le> ?N" and t: "0 < tickToFlush s"
    and qo0: "?q = (currentOutQueue s + 1) mod ?N"
    and qs: "queues s = (replicate ?N [])[?q := pb]"
    unfolding awaiting_def by blast+
  from qo0 have qo: "?q = Suc (currentOutQueue s) mod ?N" by simp
  from N have pos: "0 < ?N" by linarith
  from pos qo have q: "?q < ?N" by simp
  from pos have p: "?p < ?N" by simp
  have ne: "?p \<noteq> ?q" using N q by (rule next_slot_differs)
  have po: "?p = Suc (Suc (currentOutQueue s)) mod ?N"
    by (subst qo) (simp add: mod_Suc_eq)
  show "queues s ! ((currentPlayQueue s + 1) mod MIDI_MAX_BUFFERS s) = []"
    using p ne by (subst qs) (simp add: MIDI_MAX_BUFFERS_def)
  have "(queues s)[?p := []] = (replicate ?N [])[?q := pb, ?p := []]" by (subst qs) simp
  then show "in_step_awaiting (AdvancePlayQueue s) pb []"
    using N t po qo
    by (simp add: in_step_awaiting_def AdvancePlayQueue_def MIDI_MAX_BUFFERS_def Let_def)
  show "calls (AdvancePlayQueue s) = calls s"
    and "tickToFlush (AdvancePlayQueue s) = tickToFlush s"
    by (simp_all add: AdvancePlayQueue_def Let_def)
qed

text \<open>The body of a step\<close>

lemma body_in_step:
  assumes "in_step s b" and "outDevice s = Some dev"
  shows "in_step (run (map (case_option OnTick Enqueue) body) s) (b @ step_batch body)"
    and "calls (run (map (case_option OnTick Enqueue) body) s) = calls s"
proof -
  let ?N = "length (queues s)"
  let ?p = "currentPlayQueue s"
  from assms(1) have N0: "queues s \<noteq> []" and t: "tickToFlush s \<le> 0"
    and po0: "?p = (currentOutQueue s + 1) mod ?N"
    and qs: "queues s = (replicate ?N [])[?p := b]"
    unfolding in_step_def by blast+
  from N0 have N: "0 < ?N" by simp
  from po0 have po: "?p = Suc (currentOutQueue s) mod ?N" by simp
  from N po have p: "?p < ?N" by simp
  have at: "queues s ! ?p = b" using p by (subst qs) simp
  have r: "run (map (case_option OnTick Enqueue) body) s =
      s\<lparr>queues := (queues s)[?p := b @ step_batch body]\<rparr>"
    using run_body [OF t p, of body] assms(2) at by simp
  have "(queues s)[?p := b @ step_batch body] = (replicate ?N [])[?p := b @ step_batch body]"
    by (subst qs) simp
  then show "in_step (run (map (case_option OnTick Enqueue) body) s) (b @ step_batch body)"
    using N t po by (simp add: r in_step_def)
  show "calls (run (map (case_option OnTick Enqueue) body) s) = calls s"
    by (simp add: r)
qed

lemma enqueue_in_step_awaiting:
  assumes "in_step_awaiting s pb b" and "outDevice s = Some dev"
  shows "in_step_awaiting (QueueMessage m s) pb (b @ [m])"
    and "calls (QueueMessage m s) = calls s"
    and "tickToFlush (QueueMessage m s) = tickToFlush s"
proof -
  let ?N = "length (queues s)"
  let ?p = "currentPlayQueue s"
  let ?q = "Suc (currentOutQueue s) mod ?N"
  from assms(1) have N: "2 \<le> ?N" and t: "0 < tickToFlush s"
    and po0: "?p = (currentOutQueue s + 2) mod ?N"
    and qs0: "queues s = (replicate ?N [])[(currentOutQueue s + 1) mod ?N := pb, ?p := b]"
    unfolding in_step_awaiting_def by blast+
  from po0 have po: "?p = Suc (Suc (currentOutQueue s)) mod ?N" by simp
  from qs0 have qs: "queues s = (replicate ?N [])[?q := pb, ?p := b]" by simp
  from N have pos: "0 < ?N" by linarith
  from pos po have p: "?p < ?N" by simp
  have at: "queues s ! ?p = b" using p by (subst qs) simp
  have "(queues s)[?p := b @ [m]] = (replicate ?N [])[?q := pb, ?p := b @ [m]]"
    by (subst qs) simp
  then show "in_step_awaiting (QueueMessage m s) pb (b @ [m])"
    using N t po assms(2) at
    by (simp add: in_step_awaiting_def QueueMessage_def MidiMessage_copy)
  show "calls (QueueMessage m s) = calls s" "tickToFlush (QueueMessage m s) = tickToFlush s"
    using assms(2) by (simp_all add: QueueMessage_def)
qed

lemma in_step_awaiting_countdown:
  "in_step_awaiting s pb b \<Longrightarrow> 0 < r \<Longrightarrow> in_step_awaiting (s\<lparr>tickToFlush := r\<rparr>) pb b"
  unfolding in_step_awaiting_def
  apply (simp (no_asm_use))
  apply blast
  done

lemma tick_in_step_awaiting:
  assumes "in_step_awaiting s pb b" and "outDevice s = Some dev"
  shows "tickToFlush s = 1 \<Longrightarrow>
           in_step (onAudioTick s) b \<and> calls (onAudioTick s) = calls s @ [SendQueue dev pb]"
    and "tickToFlush s \<noteq> 1 \<Longrightarrow>
           in_step_awaiting (onAudioTick s) pb b \<and> calls (onAudioTick s) = calls s \<and>
           tickToFlush (onAudioTick s) = tickToFlush s - 1"
proof -
  let ?N = "length (queues s)"
  let ?p = "currentPlayQueue s"
  let ?q = "Suc (currentOutQueue s) mod ?N"
  from assms(1) have N: "2 \<le> ?N" and t: "0 < tickToFlush s"
    and po0: "?p = (currentOutQueue s + 2) mod ?N"
    and qs0: "queues s = (replicate ?N [])[(currentOutQueue s + 1) mod ?N := pb, ?p := b]"
    unfolding in_step_awaiting_def by blast+
  from po0 have po: "?p = Suc (Suc (currentOutQueue s)) mod ?N" by simp
  from qs0 have qs: "queues s = (replicate ?N [])[?q := pb, ?p := b]" by simp
  from N have pos: "0 < ?N" by linarith
  from pos have q: "?q < ?N" by simp
  have pq: "?p = Suc ?q mod ?N" by (subst po) (simp add: mod_Suc_eq)
  have ne: "?p \<noteq> ?q" unfolding pq using N q by (rule next_slot_differs)
  have at: "queues s ! ?q = pb" using q ne by (subst qs) simp
  have blank: "(replicate ?N ([]::MidiMessage list))[?q := []] = replicate ?N []"
    using q by (simp add: list_update_same_conv)
  have "(replicate ?N [])[?q := pb, ?p := b, ?q := []] =
        (replicate ?N [])[?q := pb, ?q := [], ?p := b]"
    using ne by (rule list_update_swap)
  then have cleared: "(queues s)[?q := []] = (replicate ?N [])[?p := b]"
    by (subst qs) (simp add: blank)
  {
    assume one: "tickToFlush s = 1"
    show "in_step (onAudioTick s) b \<and> calls (onAudioTick s) = calls s @ [SendQueue dev pb]"
      using pos assms(2) one at cleared pq
      by (simp add: onAudioTick_def flushOutQueue_def MIDI_MAX_BUFFERS_def Let_def in_step_def)
  }
  {
    assume "tickToFlush s \<noteq> 1"
    with t have more: "1 < tickToFlush s" by simp
    then have step: "onAudioTick s = s\<lparr>tickToFlush := tickToFlush s - 1\<rparr>"
      by (simp add: onAudioTick_def)
    from more have "in_step_awaiting (s\<lparr>tickToFlush := tickToFlush s - 1\<rparr>) pb b"
      by (intro in_step_awaiting_countdown [OF assms(1)]) simp
    then show "in_step_awaiting (onAudioTick s) pb b \<and> calls (onAudioTick s) = calls s \<and>
           tickToFlush (onAudioTick s) = tickToFlush s - 1"
      by (simp add: step)
  }
qed

lemma body_ticks_simps [simp]:
  "body_ticks [] = 0"
  "body_ticks (None # body) = Suc (body_ticks body)"
  "body_ticks (Some m # body) = body_ticks body"
  by (simp_all add: body_ticks_def)

lemma body_in_step_awaiting:
  assumes "in_step_awaiting s pb b" and "outDevice s = Some dev"
    and "tickToFlush s \<le> int (body_ticks body)"
  shows "in_step (run (map (case_option OnTick Enqueue) body) s) (b @ step_batch body) \<and>
         calls (run (map (case_option OnTick Enqueue) body) s) = calls s @ [SendQueue dev pb]"
  using assms
proof (induction body arbitrary: s b)
  case Nil
  then show ?case by (simp add: in_step_awaiting_def)
next
  case (Cons x body)
  show ?case
  proof (cases x)
    case (Some m)
    note q = enqueue_in_step_awaiting [OF Cons.prems(1,2), of m]
    have "tickToFlush (QueueMessage m s) \<le> int (body_ticks body)"
      using Cons.prems(3) Some q(3) by simp
    from Cons.IH [OF q(1) _ this] Cons.prems(2) q(2) show ?thesis
      unfolding Some by (simp add: QueueMessage_def)
  next
    case None
    show ?thesis
    proof (cases "tickToFlush s = 1")
      case True
      from tick_in_step_awaiting(1) [OF Cons.prems(1,2) True]
      have st: "in_step (onAudioTick s) b"
        and c: "calls (onAudioTick s) = calls s @ [SendQueue dev pb]" by simp_all
      have d: "outDevice (onAudioTick s) = Some dev"
        using Cons.prems(2) exec_frame(2) [of OnTick s] by simp
      from body_in_step [OF st d, of body] c show ?thesis
        unfolding None by simp
    next
      case False
      from tick_in_step_awaiting(2) [OF Cons.prems(1,2) False]
      have st: "in_step_awaiting (onAudioTick s) pb b"
        and c: "calls (onAudioTick s) = calls s"
        and t: "tickToFlush (onAudioTick s) = tickToFlush s - 1" by simp_all
      have d: "outDevice (onAudioTick s) = Some dev"
        using Cons.prems(2) exec_frame(2) [of OnTick s] by simp
      have "tickToFlush (onAudioTick s) \<le> int (body_ticks body)"
        using Cons.prems(3) t None by simp
      from Cons.IH [OF st d this] c show ?thesis
        unfolding None by simp
    qed
  qed
qed

text \<open>The flush of a step and the ticks after it\<close>

lemma flush_in_step:
  assumes st: "in_step s b" and dev: "outDevice s = Some dev"
    and d0: "0 \<le> midiDelay s" and dN: "midiDelay s + 1 \<le> int (length (queues s))"
  shows "midiDelay s \<le> int k \<Longrightarrow>
           ring_idle (ticks k (Flush s)) \<and>
           calls (ticks k (Flush s)) = calls s @ [SendQueue dev b]"
    and "int k < midiDelay s \<Longrightarrow>
           awaiting (ticks k (Flush s)) b \<and> calls (ticks k (Flush s)) = calls s \<and>
           tickToFlush (ticks k (Flush s)) = midiDelay s - int k"
proof -
  let ?N = "length (queues s)"
  let ?p = "currentPlayQueue s"
  from st have N0: "queues s \<noteq> []" and t: "tickToFlush s \<le> 0"
    and po0: "?p = (currentOutQueue s + 1) mod ?N"
    and qs: "queues s = (replicate ?N [])[?p := b]"
    unfolding in_step_def by blast+
  from N0 have N: "0 < ?N" by simp
  from po0 have po: "?p = Suc (currentOutQueue s) mod ?N" by simp
  from N po have p: "?p < ?N" by simp
  have at: "queues s ! ?p = b" using p by (subst qs) simp
  have cleared: "(queues s)[?p := []] = replicate ?N []"
    by (subst qs) (simp add: list_update_same_conv p)
  {
    assume "midiDelay s \<le> int k"
    with d0 have "ticks k (Flush s) = flushOutQueue (s\<lparr>tickToFlush := 0\<rparr>)"
      by (intro ticks_ge_delay)
    then show "ring_idle (ticks k (Flush s)) \<and>
           calls (ticks k (Flush s)) = calls s @ [SendQueue dev b]"
      using N dev po [symmetric] at cleared
      by (simp add: flushOutQueue_def MIDI_MAX_BUFFERS_def Let_def ring_idle_def list_all_iff)
  }
  {
    assume k: "int k < midiDelay s"
    then have pos: "0 < midiDelay s" by linarith
    with dN have N2: "2 \<le> ?N" by linarith
    have "ticks k (s\<lparr>tickToFlush := midiDelay s\<rparr>) = s\<lparr>tickToFlush := midiDelay s - int k\<rparr>"
      using ticks_counting [OF k, of "s\<lparr>tickToFlush := midiDelay s\<rparr>"] by simp
    with pos have "ticks k (Flush s) = s\<lparr>tickToFlush := midiDelay s - int k\<rparr>"
      by (simp add: Flush_armed)
    then show "awaiting (ticks k (Flush s)) b \<and> calls (ticks k (Flush s)) = calls s \<and>
           tickToFlush (ticks k (Flush s)) = midiDelay s - int k"
      using N2 k po qs by (simp add: awaiting_def)
  }
qed


text \<open>One step, from boundary to boundary\<close>

lemma waiting_simps [simp]: "waiting None = []" "waiting (Some pb) = [pb]"
  by (simp_all add: waiting_def)

lemma step_boundary:
  assumes bd: "boundary s pend" and dev: "outDevice s = Some dev"
    and d0: "0 \<le> midiDelay s" and dN: "midiDelay s + 1 \<le> int (length (queues s))"
    and rd: "tickToFlush s \<le> int (body_ticks body)"
  shows "no_overwrite (step_events body k @ fs) s =
           no_overwrite fs (run (step_events body k) s)"
    and "midiDelay s \<le> int k \<Longrightarrow>
           ring_idle (run (step_events body k) s) \<and>
           calls (run (step_events body k) s) =
             calls s @ map (SendQueue dev) (waiting pend @ [step_batch body])"
    and "int k < midiDelay s \<Longrightarrow>
           awaiting (run (step_events body k) s) (step_batch body) \<and>
           calls (run (step_events body k) s) = calls s @ map (SendQueue dev) (waiting pend) \<and>
           tickToFlush (run (step_events body k) s) = midiDelay s - int k"
proof -
  let ?u1 = "AdvancePlayQueue s"
  let ?body = "map (case_option OnTick Enqueue) body"
  let ?u2 = "run ?body ?u1"
  have dev1: "outDevice ?u1 = Some dev" using dev exec_frame(2) [of AdvanceWrite s] by simp
  have entered: "queues s ! ((currentPlayQueue s + 1) mod MIDI_MAX_BUFFERS s) = []"
    and u2: "in_step ?u2 (step_batch body)"
    and c2: "calls ?u2 = calls s @ map (SendQueue dev) (waiting pend)"
  proof -
    have "queues s ! ((currentPlayQueue s + 1) mod MIDI_MAX_BUFFERS s) = []
        \<and> in_step ?u2 (step_batch body)
        \<and> calls ?u2 = calls s @ map (SendQueue dev) (waiting pend)" (is ?goal)
    proof (cases pend)
      case None
      with bd have idle: "ring_idle s" by (simp add: boundary_def)
      note a = advance_idle [OF idle]
      from body_in_step [OF a(2) dev1, of body] a(1,3) None show ?goal
        by simp
    next
      case (Some pb)
      with bd have aw: "awaiting s pb" by (simp add: boundary_def)
      note a = advance_awaiting [OF aw]
      have "tickToFlush ?u1 \<le> int (body_ticks body)" using rd a(4) by simp
      from body_in_step_awaiting [OF a(2) dev1 this] a(1,3) Some show ?goal
        by simp
    qed
    then show "queues s ! ((currentPlayQueue s + 1) mod MIDI_MAX_BUFFERS s) = []"
      and "in_step ?u2 (step_batch body)"
      and "calls ?u2 = calls s @ map (SendQueue dev) (waiting pend)" by blast+
  qed
  have run: "run (step_events body k) s = ticks k (Flush ?u2)"
    by (simp add: step_events_def run_append run_ticks)
  have f2: "outDevice ?u2 = Some dev" "0 \<le> midiDelay ?u2"
    "midiDelay ?u2 + 1 \<le> int (length (queues ?u2))" "midiDelay ?u2 = midiDelay s"
    using dev d0 dN run_frame [of "AdvanceWrite # ?body" s] by simp_all
  note fl = flush_in_step [OF u2 f2(1,2,3), of k]
  show "midiDelay s \<le> int k \<Longrightarrow>
           ring_idle (run (step_events body k) s) \<and>
           calls (run (step_events body k) s) =
             calls s @ map (SendQueue dev) (waiting pend @ [step_batch body])"
    using fl(1) f2(4) c2 by (simp add: run)
  show "int k < midiDelay s \<Longrightarrow>
           awaiting (run (step_events body k) s) (step_batch body) \<and>
           calls (run (step_events body k) s) = calls s @ map (SendQueue dev) (waiting pend) \<and>
           tickToFlush (run (step_events body k) s) = midiDelay s - int k"
    using fl(2) f2(4) c2 by (simp add: run)
  let ?tail = "?body @ RequestFlush # replicate k OnTick"
  have "no_overwrite (step_events body k @ fs) s = no_overwrite (?tail @ fs) ?u1"
    using entered by (simp add: step_events_def)
  also have "AdvanceWrite \<notin> set ?tail" by (auto split: option.splits)
  then have "no_overwrite (?tail @ fs) ?u1 = no_overwrite fs (run ?tail ?u1)"
    by (rule no_overwrite_append)
  also have "run ?tail ?u1 = run (step_events body k) s"
    by (simp add: step_events_def)
  finally show "no_overwrite (step_events body k @ fs) s =
           no_overwrite fs (run (step_events body k) s)" .
qed

lemma unpreempted_tail: "unpreempted d (c # cs) \<Longrightarrow> unpreempted d cs"
  by (cases c; cases cs) auto

lemma fired_Cons: "cs \<noteq> [] \<Longrightarrow> fired d (c # cs) = c # fired d cs"
  by (simp add: fired_def)

lemma fired_all_Cons: "cs \<noteq> [] \<Longrightarrow> fired d (c # cs) = c # cs \<longleftrightarrow> fired d cs = cs"
  by (simp add: fired_def)

lemma schedule_boundary:
  assumes "boundary s pend" and "outDevice s = Some dev"
    and "0 \<le> midiDelay s" and "midiDelay s + 1 \<le> int (length (queues s))"
    and "cs \<noteq> [] \<Longrightarrow> tickToFlush s \<le> int (body_ticks (fst (hd cs)))"
    and "unpreempted (midiDelay s) cs"
  shows "no_overwrite (schedule cs) s \<and>
         calls (run (schedule cs) s) =
           calls s @ map (SendQueue dev)
             ((if cs = [] then [] else waiting pend) @
              map (\<lambda>c. step_batch (fst c)) (fired (midiDelay s) cs)) \<and>
         boundary (run (schedule cs) s)
           (if cs = [] then pend
            else if fired (midiDelay s) cs = cs then None
            else Some (step_batch (fst (last cs))))"
  using assms
proof (induction cs arbitrary: s pend)
  case Nil
  then show ?case by (simp add: fired_def)
next
  case (Cons c cs)
  obtain body k where c: "c = (body, k)" by (cases c)
  let ?d = "midiDelay s"
  let ?s' = "run (step_events body k) s"
  have rd: "tickToFlush s \<le> int (body_ticks body)" using Cons.prems(5) c by simp
  note st = step_boundary [OF Cons.prems(1,2,3,4) rd, of k]
  have fr: "outDevice ?s' = Some dev" "0 \<le> midiDelay ?s'"
    "midiDelay ?s' + 1 \<le> int (length (queues ?s'))" "midiDelay ?s' = ?d"
    using Cons.prems(2,3,4) by simp_all
  have up: "unpreempted (midiDelay ?s') cs"
    using Cons.prems(6) fr(4) by (simp add: unpreempted_tail)
  have run: "run (schedule (c # cs)) s = run (schedule cs) ?s'"
    by (simp add: c run_append)
  have safe: "no_overwrite (schedule (c # cs)) s = no_overwrite (schedule cs) ?s'"
    by (simp add: c st(1))
  show ?case
  proof (cases "?d \<le> int k")
    case True
    from st(2) [OF True] have idle: "boundary ?s' None"
      and cl: "calls ?s' = calls s @ map (SendQueue dev) (waiting pend @ [step_batch body])"
      by (simp_all add: boundary_def)
    from st(2) [OF True] have "tickToFlush ?s' \<le> 0" by (simp add: ring_idle_def)
    then have rd': "cs \<noteq> [] \<Longrightarrow> tickToFlush ?s' \<le> int (body_ticks (fst (hd cs)))"
      by simp
    note IH = Cons.IH [OF idle fr(1,2,3) rd' up]
    show ?thesis
    proof (cases "cs = []")
      case True
      with IH \<open>?d \<le> int k\<close> cl idle show ?thesis
        unfolding run safe by (simp add: c fired_def)
    next
      case False
      with IH cl show ?thesis
        unfolding run safe by (auto simp: c fr(4) fired_Cons fired_all_Cons)
    qed
  next
    case False
    then have lt: "int k < ?d" by simp
    from st(3) [OF lt] have aw: "boundary ?s' (Some (step_batch body))"
      and cl: "calls ?s' = calls s @ map (SendQueue dev) (waiting pend)"
      and tk: "tickToFlush ?s' = ?d - int k"
      by (simp_all add: boundary_def)
    have rd': "cs \<noteq> [] \<Longrightarrow> tickToFlush ?s' \<le> int (body_ticks (fst (hd cs)))"
    proof -
      assume "cs \<noteq> []"
      then obtain b2 k2 r where cs: "cs = (b2, k2) # r" by (cases cs) auto
      with Cons.prems(6) c have "?d \<le> int (k + body_ticks b2)" by simp
      with tk cs show ?thesis by simp
    qed
    note IH = Cons.IH [OF aw fr(1,2,3) rd' up]
    show ?thesis
    proof (cases "cs = []")
      case True
      with IH lt cl aw show ?thesis
        unfolding run safe by (simp add: c fired_def)
    next
      case False
      with IH cl show ?thesis
        unfolding run safe by (auto simp: c fr(4) fired_Cons fired_all_Cons)
    qed
  qed
qed

text \<open>Without an output device nothing is ever stored\<close>

lemma all_empty_update:
  "list_all (\<lambda>q. q = []) qs \<Longrightarrow> list_all (\<lambda>q. q = []) (qs[i := []])"
  by (auto simp: list_all_iff dest: set_update_subset_insert [THEN subsetD])

lemma exec_all_empty:
  assumes "outDevice s = None" and "list_all (\<lambda>q. q = []) (queues s)"
  shows "list_all (\<lambda>q. q = []) (queues (exec e s))"
  using assms
  by (cases e) (simp_all add: ring_defs Let_def all_empty_update)

lemma no_device_never_overwrites:
  assumes "outDevice s = None" and "queues s \<noteq> []" and "list_all (\<lambda>q. q = []) (queues s)"
  shows "no_overwrite es s"
  using assms
proof (induction es arbitrary: s)
  case Nil
  show ?case by simp
next
  case (Cons e es)
  have next_ok: "no_overwrite es (exec e s)"
  proof (rule Cons.IH)
    show "outDevice (exec e s) = None" using Cons.prems(1) by simp
    show "queues (exec e s) \<noteq> []"
      using Cons.prems(2) exec_frame(3) [of e s] by (metis length_0_conv)
    show "list_all (\<lambda>q. q = []) (queues (exec e s))"
      using Cons.prems(1,3) by (rule exec_all_empty)
  qed
  show ?case
  proof (cases e)
    case AdvanceWrite
    from Cons.prems(2) have "(currentPlayQueue s + 1) mod length (queues s) < length (queues s)"
      by simp
    with Cons.prems(3)
    have "queues s ! ((currentPlayQueue s + 1) mod MIDI_MAX_BUFFERS s) = []"
      by (simp add: list_all_length MIDI_MAX_BUFFERS_def)
    with next_ok AdvanceWrite show ?thesis by simp
  qed (use next_ok in simp_all)
qed

text \<open>
  C2, as the code behaves. Start from an idle ring of \<open>N\<close> slots with a delay \<open>d \<ge> 0\<close>
  and \<open>d + 1 \<le> N\<close>, and run any number of steps, with ticks anywhere, such that no
  \<open>RequestFlush\<close> arrives while the countdown of the step before is still running
  (at least \<open>d\<close> ticks between two consecutive \<open>RequestFlush\<close> calls, inside the next
  step or before it). Then every \<open>AdvanceWrite\<close> enters an empty slot. With an output
  device bound, the batches of the steps whose countdown has run out have been sent
  one by one, in step order, each exactly once; if the countdown of the last step is
  still running, its batch is intact in the slot under the write cursor, and
  otherwise the ring is idle again.
\<close>

theorem unpreempted_steps_never_overwrite:
  assumes "ring_idle s" and "0 \<le> midiDelay s"
    and "midiDelay s + 1 \<le> int (length (queues s))"
    and "unpreempted (midiDelay s) cs"
  shows "no_overwrite (schedule cs) s \<and>
         (outDevice s = Some dev \<longrightarrow>
            calls (run (schedule cs) s) =
              calls s @ map (\<lambda>c. SendQueue dev (step_batch (fst c))) (fired (midiDelay s) cs) \<and>
            (fired (midiDelay s) cs = cs \<longrightarrow> ring_idle (run (schedule cs) s)) \<and>
            (fired (midiDelay s) cs \<noteq> cs \<longrightarrow>
               awaiting (run (schedule cs) s) (step_batch (fst (last cs))) \<and>
               queues (run (schedule cs) s) ! currentPlayQueue (run (schedule cs) s) =
                 step_batch (fst (last cs))))"
proof (cases "outDevice s")
  case None
  from assms(1) have "queues s \<noteq> []" "list_all (\<lambda>q. q = []) (queues s)"
    by (simp_all add: ring_idle_def)
  with None have "no_overwrite (schedule cs) s" by (intro no_device_never_overwrites)
  with None show ?thesis by simp
next
  case (Some d)
  have bd: "boundary s None" using assms(1) by (simp add: boundary_def)
  from assms(1) have "tickToFlush s \<le> 0" by (simp add: ring_idle_def)
  then have rd: "cs \<noteq> [] \<Longrightarrow> tickToFlush s \<le> int (body_ticks (fst (hd cs)))" by simp
  note main = schedule_boundary [OF bd Some assms(2,3) rd assms(4)]
  let ?t = "run (schedule cs) s"
  let ?b = "step_batch (fst (last cs))"
  have slot: "awaiting ?t ?b \<Longrightarrow> queues ?t ! currentPlayQueue ?t = ?b"
  proof -
    assume aw: "awaiting ?t ?b"
    then have N: "2 \<le> length (queues ?t)"
      and p: "currentPlayQueue ?t = (currentOutQueue ?t + 1) mod length (queues ?t)"
      and q: "queues ?t = (replicate (length (queues ?t)) [])[currentPlayQueue ?t := ?b]"
      unfolding awaiting_def by blast+
    from N have "0 < length (queues ?t)" by linarith
    with p have "currentPlayQueue ?t < length (queues ?t)" by simp
    then show ?thesis by (subst q) simp
  qed
  from main have safe: "no_overwrite (schedule cs) s"
    and sent: "calls ?t =
      calls s @ map (\<lambda>c. SendQueue d (step_batch (fst c))) (fired (midiDelay s) cs)"
    and shape: "boundary ?t
           (if cs = [] then None
            else if fired (midiDelay s) cs = cs then None
            else Some ?b)"
    by (simp_all add: comp_def)
  have all: "fired (midiDelay s) cs = cs \<Longrightarrow> ring_idle ?t"
    using shape by (cases "cs = []") (simp_all add: boundary_def)
  have part: "fired (midiDelay s) cs \<noteq> cs \<Longrightarrow> awaiting ?t ?b"
  proof -
    assume ne: "fired (midiDelay s) cs \<noteq> cs"
    then have "cs \<noteq> []" by (auto simp: fired_def)
    with shape ne show "awaiting ?t ?b" by (simp add: boundary_def)
  qed
  show ?thesis
  proof (intro conjI impI)
    show "no_overwrite (schedule cs) s" by (rule safe)
  next
    assume "outDevice s = Some dev"
    with Some have "d = dev" by simp
    with sent show "calls ?t =
      calls s @ map (\<lambda>c. SendQueue dev (step_batch (fst c))) (fired (midiDelay s) cs)"
      by simp
  next
    assume "fired (midiDelay s) cs = cs"
    then show "ring_idle ?t" by (rule all)
  next
    assume ne: "fired (midiDelay s) cs \<noteq> cs"
    then show "awaiting ?t ?b" by (rule part)
    from part [OF ne] show "queues ?t ! currentPlayQueue ?t = ?b" by (rule slot)
  qed
qed


theorem unpreempted_steps_never_overwrite_witness:
  "ring_idle (ring4 2) \<and> 0 \<le> midiDelay (ring4 2) \<and>
   midiDelay (ring4 2) + 1 \<le> int (length (queues (ring4 2))) \<and>
   unpreempted (midiDelay (ring4 2)) pipelined \<and>
   outDevice (ring4 2) = Some 0 \<and>
   fired (midiDelay (ring4 2)) pipelined = pipelined \<and>
   no_overwrite (schedule pipelined) (ring4 2) \<and>
   calls (run (schedule pipelined) (ring4 2)) =
     calls (ring4 2) @
     map (\<lambda>c. SendQueue 0 (step_batch (fst c))) (fired (midiDelay (ring4 2)) pipelined) \<and>
   ring_idle (run (schedule pipelined) (ring4 2)) \<and>
   unpreempted (midiDelay (ring4 2)) lone_step \<and>
   fired (midiDelay (ring4 2)) lone_step \<noteq> lone_step \<and>
   awaiting (run (schedule lone_step) (ring4 2)) (step_batch (fst (last lone_step))) \<and>
   queues (run (schedule lone_step) (ring4 2)) ! currentPlayQueue (run (schedule lone_step) (ring4 2)) =
     step_batch (fst (last lone_step))"
proof -
  have idle: "ring_idle (ring4 2)" by code_simp
  have d0: "0 \<le> midiDelay (ring4 2)" by (simp add: ring4_def)
  have dN: "midiDelay (ring4 2) + 1 \<le> int (length (queues (ring4 2)))"
    by (simp add: ring4_def)
  have up: "unpreempted (midiDelay (ring4 2)) pipelined" by code_simp
  have up1: "unpreempted (midiDelay (ring4 2)) lone_step" by code_simp
  have dev: "outDevice (ring4 2) = Some 0" by (simp add: ring4_def)
  have all: "fired (midiDelay (ring4 2)) pipelined = pipelined" by code_simp
  have part: "fired (midiDelay (ring4 2)) lone_step \<noteq> lone_step" by code_simp
  from unpreempted_steps_never_overwrite [OF idle d0 dN up, of 0] dev all
  have a: "no_overwrite (schedule pipelined) (ring4 2) \<and>
     calls (run (schedule pipelined) (ring4 2)) =
       calls (ring4 2) @
       map (\<lambda>c. SendQueue 0 (step_batch (fst c))) (fired (midiDelay (ring4 2)) pipelined) \<and>
     ring_idle (run (schedule pipelined) (ring4 2))"
    by blast
  from unpreempted_steps_never_overwrite [OF idle d0 dN up1, of 0] dev part
  have b: "awaiting (run (schedule lone_step) (ring4 2)) (step_batch (fst (last lone_step))) \<and>
     queues (run (schedule lone_step) (ring4 2)) !
       currentPlayQueue (run (schedule lone_step) (ring4 2)) =
     step_batch (fst (last lone_step))"
    by blast
  from idle d0 dN up dev all a up1 part b show ?thesis by blast
qed

text \<open>
  The ring depth is needed: on a single slot (\<open>2 + 1 > 1\<close>) the same run, in which
  no flush is pre-empted, overwrites the batch that waits for its countdown.
\<close>

lemma one_slot_ring_overwritten:
  "unpreempted 2 pipelined \<and> ring_idle (ring1 2) \<and>
   \<not> no_overwrite (schedule pipelined) (ring1 2)"
  by code_simp

text \<open>
  The claim as the specification states it fails on the code. With delay 2 and four
  slots (\<open>2 + 1 \<le> 4\<close>), five steps with one tick after each never let the countdown
  reach zero: every \<open>RequestFlush\<close> sets it back to 2. Nothing is ever sent, and the
  fifth \<open>AdvanceWrite\<close> enters slot 1, which still holds the message of the first
  step.
\<close>

theorem hurried_steps_counterexample:
  "midiDelay (ring4 2) + 1 \<le> int (length (queues (ring4 2))) \<and>
   ring_idle (ring4 2) \<and>
   \<not> no_overwrite (schedule hurried) (ring4 2) \<and>
   calls (run (schedule hurried) (ring4 2)) = []"
  by code_simp

end
